theory Spec2Isabelle
  imports Main "HOL-Library.AList" "HOL-Library.List_Lexorder"
begin

section \<open>Python values used by the address book\<close>

text \<open>
  A Python \<open>str\<close> is a sequence of Unicode code points, so it is modelled as a list of
  natural numbers; \<open>ascii\<close> embeds an ASCII literal. The exceptions that the program
  raises or lets escape are the constructors of \<open>error\<close> (the message of a
  \<open>ValueError\<close> plays no part in any property below and is left out).
\<close>

type_synonym pystr = "nat list"

definition ascii :: "string \<Rightarrow> pystr" where
  "ascii s = map of_char s"

datatype error = ValueError | TypeError | OverflowError

subsection \<open>The regular-expression class \<open>\d\<close> and \<open>int()\<close>\<close>

text \<open>
  For a \<open>str\<close> pattern the class \<open>\d\<close> of module \<open>re\<close> matches every character
  of Unicode category Nd, not only \<open>0\<close>..\<open>9\<close>. \<open>Nd_ranges\<close> lists the blocks of that
  category (Unicode 14.0, the table of CPython 3.11); every block starts at a digit zero
  and holds a whole number of runs \<open>0\<close>..\<open>9\<close>, which is how \<open>int()\<close> reads a digit.
\<close>

definition Nd_ranges :: "(nat \<times> nat) list" where
  "Nd_ranges =
    [(48, 57), (1632, 1641), (1776, 1785), (1984, 1993), (2406, 2415), (2534, 2543),
     (2662, 2671), (2790, 2799), (2918, 2927), (3046, 3055), (3174, 3183), (3302, 3311),
     (3430, 3439), (3558, 3567), (3664, 3673), (3792, 3801), (3872, 3881), (4160, 4169),
     (4240, 4249), (6112, 6121), (6160, 6169), (6470, 6479), (6608, 6617), (6784, 6793),
     (6800, 6809), (6992, 7001), (7088, 7097), (7232, 7241), (7248, 7257), (42528, 42537),
     (43216, 43225), (43264, 43273), (43472, 43481), (43504, 43513), (43600, 43609),
     (44016, 44025), (65296, 65305), (66720, 66729), (68912, 68921), (69734, 69743),
     (69872, 69881), (69942, 69951), (70096, 70105), (70384, 70393), (70736, 70745),
     (70864, 70873), (71248, 71257), (71360, 71369), (71472, 71481), (71904, 71913),
     (72016, 72025), (72784, 72793), (73040, 73049), (73120, 73129), (92768, 92777),
     (92864, 92873), (93008, 93017), (120782, 120831), (123200, 123209), (123632, 123641),
     (125264, 125273), (130032, 130041)]"

definition in_range :: "nat \<Rightarrow> nat \<times> nat \<Rightarrow> bool" where
  "in_range c r = (fst r \<le> c \<and> c \<le> snd r)"

definition re_digit :: "nat \<Rightarrow> bool" where
  "re_digit c = list_ex (in_range c) Nd_ranges"

definition ascii_digit :: "nat \<Rightarrow> bool" where
  "ascii_digit c = (48 \<le> c \<and> c \<le> 57)"

definition digit_value :: "nat \<Rightarrow> int" where
  "digit_value c =
     (case find (in_range c) Nd_ranges of
        None \<Rightarrow> 0
      | Some r \<Rightarrow> int ((c - fst r) mod 10))"

definition int_of_str :: "pystr \<Rightarrow> int" where
  "int_of_str s = foldl (\<lambda>acc c. 10 * acc + digit_value c) 0 s"

section \<open>Fields\<close>

subsection \<open>Phone\<close>

text \<open>
  \<open>Phone.validate\<close> raises \<open>ValueError\<close> unless \<open>re.fullmatch(r"\d{10}", value)\<close>
  finds a match; \<open>Phone.__init__\<close> validates and then stores the value as given.
\<close>

datatype Phone = Phone (phone_value: pystr)

definition fullmatch_d10 :: "pystr \<Rightarrow> bool" where
  "fullmatch_d10 s = (length s = 10 \<and> list_all re_digit s)"

definition validate :: "pystr \<Rightarrow> error + unit" where
  "validate v = (if \<not> fullmatch_d10 v then Inl ValueError else Inr ())"

definition Phone_init :: "pystr \<Rightarrow> error + Phone" where
  "Phone_init v = (case validate v of Inl e \<Rightarrow> Inl e | Inr _ \<Rightarrow> Inr (Phone v))"

section \<open>Dates\<close>

text \<open>
  The program computes with \<open>datetime.date\<close>, \<open>datetime.datetime\<close> and
  \<open>timedelta(days=n)\<close> of the standard library. A date holds year, month and day; the
  functions below follow the library: the proleptic Gregorian ordinal (day 1 is
  0001-01-01, a Monday), the constructor's range checks, and arithmetic through the
  ordinal. Python integers are unbounded, so the numbers are of type \<open>int\<close>; the
  divisors are positive, where \<open>div\<close> and \<open>mod\<close> agree with Python's \<open>//\<close> and \<open>%\<close>.
\<close>

record date =
  year :: int
  month :: int
  day :: int

definition MINYEAR :: int where "MINYEAR = 1"
definition MAXYEAR :: int where "MAXYEAR = 9999"
definition MAXORDINAL :: int where "MAXORDINAL = 3652059"

definition DAYS_IN_MONTH :: "int list" where
  "DAYS_IN_MONTH = [-1, 31, 28, 31, 30, 31, 30, 31, 31, 30, 31, 30, 31]"

definition DAYS_BEFORE_MONTH :: "int list" where
  "DAYS_BEFORE_MONTH = [-1, 0, 31, 59, 90, 120, 151, 181, 212, 243, 273, 304, 334]"

definition is_leap :: "int \<Rightarrow> bool" where
  "is_leap y = (y mod 4 = 0 \<and> (y mod 100 \<noteq> 0 \<or> y mod 400 = 0))"

definition days_before_year :: "int \<Rightarrow> int" where
  "days_before_year y0 = (let y = y0 - 1 in y * 365 + y div 4 - y div 100 + y div 400)"

definition days_in_month :: "int \<Rightarrow> int \<Rightarrow> int" where
  "days_in_month y m = (if m = 2 \<and> is_leap y then 29 else DAYS_IN_MONTH ! nat m)"

definition days_before_month :: "int \<Rightarrow> int \<Rightarrow> int" where
  "days_before_month y m = DAYS_BEFORE_MONTH ! nat m + (if m > 2 \<and> is_leap y then 1 else 0)"

definition ymd2ord :: "int \<Rightarrow> int \<Rightarrow> int \<Rightarrow> int" where
  "ymd2ord y m d = days_before_year y + days_before_month y m + d"

text \<open>
  \<open>ord2ymd\<close> is the library's inverse of \<open>ymd2ord\<close>: it splits the ordinal into cycles
  of 400, 100, 4 and 1 years; its last step, \<open>month_day_of\<close>, estimates the month of the
  day \<open>n\<close> of the year (counted from 0) as \<open>(n + 50) >> 5\<close> and steps one month back
  when the estimate is too large.
\<close>

definition month_day_of :: "bool \<Rightarrow> int \<Rightarrow> int \<times> int" where
  "month_day_of leapyear n =
     (let m = (n + 50) div 32;
          preceding = DAYS_BEFORE_MONTH ! nat m + (if m > 2 \<and> leapyear then 1 else 0)
      in if preceding > n then
           let m' = m - 1;
               preceding' =
                 preceding - (DAYS_IN_MONTH ! nat m' + (if m' = 2 \<and> leapyear then 1 else 0))
           in (m', n - preceding' + 1)
         else (m, n - preceding + 1))"

definition ord2ymd :: "int \<Rightarrow> int \<times> int \<times> int" where
  "ord2ymd n0 =
     (let n = n0 - 1;
          n400 = n div 146097; n = n mod 146097;
          y400 = n400 * 400 + 1;
          n100 = n div 36524; n = n mod 36524;
          n4 = n div 1461; n = n mod 1461;
          n1 = n div 365; n = n mod 365;
          y = y400 + n100 * 100 + n4 * 4 + n1
      in if n1 = 4 \<or> n100 = 4 then (y - 1, 12, 31)
         else
           let leapyear = (n1 = 3 \<and> (n4 \<noteq> 24 \<or> n100 = 3))
           in case month_day_of leapyear n of (m, d) \<Rightarrow> (y, m, d))"

text \<open>
  The constructor \<open>date(y, m, d)\<close> raises \<open>ValueError\<close> for a year outside
  \<open>MINYEAR..MAXYEAR\<close>, a month outside \<open>1..12\<close> or a day the month does not have.
\<close>

definition valid_ymd :: "int \<Rightarrow> int \<Rightarrow> int \<Rightarrow> bool" where
  "valid_ymd y m d =
     (MINYEAR \<le> y \<and> y \<le> MAXYEAR \<and> 1 \<le> m \<and> m \<le> 12 \<and> 1 \<le> d \<and> d \<le> days_in_month y m)"

definition valid_date :: "date \<Rightarrow> bool" where
  "valid_date dt = valid_ymd (year dt) (month dt) (day dt)"

definition date_new :: "int \<Rightarrow> int \<Rightarrow> int \<Rightarrow> error + date" where
  "date_new y m d =
     (if \<not> (MINYEAR \<le> y \<and> y \<le> MAXYEAR) then Inl ValueError
      else if \<not> (1 \<le> m \<and> m \<le> 12) then Inl ValueError
      else if \<not> (1 \<le> d \<and> d \<le> days_in_month y m) then Inl ValueError
      else Inr \<lparr>year = y, month = m, day = d\<rparr>)"

definition toordinal :: "date \<Rightarrow> int" where
  "toordinal dt = ymd2ord (year dt) (month dt) (day dt)"

definition fromordinal :: "int \<Rightarrow> error + date" where
  "fromordinal n = (case ord2ymd n of (y, m, d) \<Rightarrow> date_new y m d)"

definition weekday :: "date \<Rightarrow> int" where
  "weekday dt = (toordinal dt + 6) mod 7"

text \<open>
  \<open>dt + timedelta(days=n)\<close> raises \<open>OverflowError\<close> when the ordinal leaves
  \<open>1..MAXORDINAL\<close>; \<open>dt - timedelta(days=n)\<close> is \<open>dt + timedelta(days=-n)\<close>.
\<close>

definition date_add_days :: "date \<Rightarrow> int \<Rightarrow> error + date" where
  "date_add_days dt n =
     (let o' = toordinal dt + n
      in if 0 < o' \<and> o' \<le> MAXORDINAL then fromordinal o' else Inl OverflowError)"

definition date_sub_days :: "date \<Rightarrow> int \<Rightarrow> error + date" where
  "date_sub_days dt n = date_add_days dt (- n)"

text \<open>Two dates compare as the triples (year, month, day) do.\<close>

definition date_lt :: "date \<Rightarrow> date \<Rightarrow> bool" where
  "date_lt a b =
     (year a < year b \<or>
      (year a = year b \<and> (month a < month b \<or> (month a = month b \<and> day a < day b))))"

definition date_le :: "date \<Rightarrow> date \<Rightarrow> bool" where
  "date_le a b = (\<not> date_lt b a)"

subsection \<open>datetime\<close>

text \<open>
  A \<open>datetime\<close> is a date with a time of day. \<open>replace(year=y)\<close> runs the constructor's
  checks again. Ordering a \<open>datetime\<close> against a plain \<open>date\<close>, and subtracting a
  \<open>date\<close> from a \<open>datetime\<close>, raise \<open>TypeError\<close> in Python, whatever the values.
\<close>

record datetime =
  date_part :: date
  hour :: int
  minute :: int
  second :: int
  microsecond :: int

definition datetime_replace_year :: "datetime \<Rightarrow> int \<Rightarrow> error + datetime" where
  "datetime_replace_year v y =
     (case date_new y (month (date_part v)) (day (date_part v)) of
        Inl e \<Rightarrow> Inl e
      | Inr d \<Rightarrow> Inr (v\<lparr>date_part := d\<rparr>))"

definition datetime_lt_date :: "datetime \<Rightarrow> date \<Rightarrow> error + bool" where
  "datetime_lt_date v d = Inl TypeError"

definition datetime_sub_date_days :: "datetime \<Rightarrow> date \<Rightarrow> error + int" where
  "datetime_sub_date_days v d = Inl TypeError"

subsection \<open>strftime\<close>

text \<open>
  \<open>%d\<close> and \<open>%m\<close> print two digits. \<open>%Y\<close> is delegated to the platform's C library:
  some print the year zero-padded to four digits (and CPython from 3.13 on does so
  everywhere), while glibc under CPython up to 3.12 prints a year below 1000 without
  padding (\<open>999\<close>). The flag \<open>zp\<close> says which: \<open>True\<close> for the zero-padding platforms.
\<close>

fun str_nat :: "nat \<Rightarrow> pystr" where
  "str_nat n = (if n < 10 then [48 + n] else str_nat (n div 10) @ [48 + n mod 10])"

declare str_nat.simps [simp del]

definition zfill :: "nat \<Rightarrow> pystr \<Rightarrow> pystr" where
  "zfill w s = replicate (w - length s) 48 @ s"

definition fmt_02d :: "int \<Rightarrow> pystr" where
  "fmt_02d n = zfill 2 (str_nat (nat n))"

definition fmt_Y :: "bool \<Rightarrow> int \<Rightarrow> pystr" where
  "fmt_Y zp y = (if zp then zfill 4 (str_nat (nat y)) else str_nat (nat y))"

definition strftime_dmY :: "bool \<Rightarrow> date \<Rightarrow> pystr" where
  "strftime_dmY zp dt = fmt_02d (day dt) @ [46] @ fmt_02d (month dt) @ [46] @ fmt_Y zp (year dt)"

definition strftime_Ymd :: "bool \<Rightarrow> date \<Rightarrow> pystr" where
  "strftime_Ymd zp dt = fmt_Y zp (year dt) @ [46] @ fmt_02d (month dt) @ [46] @ fmt_02d (day dt)"

subsection \<open>strptime\<close>

text \<open>
  \<open>datetime.strptime(value, "%d.%m.%Y")\<close> turns the format into the regular expression
  \<^verbatim>\<open>(?P<d>3[0-1]|[1-2]\d|0[1-9]|[1-9]| [1-9])\.(?P<m>1[0-2]|0[1-9]|[1-9])\.(?P<Y>\d\d\d\d)\<close>
  and matches it at the start of the string. An alternative is a length and a test of
  the prefix of that length; \<open>match_alts\<close> lists the ways a group can match, in the
  order in which the backtracking matcher tries them, with the rest of the string.
  The first complete match is the one \<open>re\<close> reports. No match, text left over after the
  match, and field values that are no date all raise \<open>ValueError\<close>.
\<close>

definition btw :: "nat \<Rightarrow> nat \<Rightarrow> nat \<Rightarrow> bool" where
  "btw lo hi c = (lo \<le> c \<and> c \<le> hi)"

definition d_alts :: "(nat \<times> (pystr \<Rightarrow> bool)) list" where
  "d_alts =
     [(2, \<lambda>s. s ! 0 = 51 \<and> btw 48 49 (s ! 1)),
      (2, \<lambda>s. btw 49 50 (s ! 0) \<and> re_digit (s ! 1)),
      (2, \<lambda>s. s ! 0 = 48 \<and> btw 49 57 (s ! 1)),
      (1, \<lambda>s. btw 49 57 (s ! 0)),
      (2, \<lambda>s. s ! 0 = 32 \<and> btw 49 57 (s ! 1))]"

definition m_alts :: "(nat \<times> (pystr \<Rightarrow> bool)) list" where
  "m_alts =
     [(2, \<lambda>s. s ! 0 = 49 \<and> btw 48 50 (s ! 1)),
      (2, \<lambda>s. s ! 0 = 48 \<and> btw 49 57 (s ! 1)),
      (1, \<lambda>s. btw 49 57 (s ! 0))]"

definition Y_alts :: "(nat \<times> (pystr \<Rightarrow> bool)) list" where
  "Y_alts = [(4, \<lambda>s. re_digit (s ! 0) \<and> re_digit (s ! 1) \<and> re_digit (s ! 2) \<and> re_digit (s ! 3))]"

definition match_alts :: "(nat \<times> (pystr \<Rightarrow> bool)) list \<Rightarrow> pystr \<Rightarrow> (pystr \<times> pystr) list" where
  "match_alts alts s =
     concat (map (\<lambda>(n, p). if n \<le> length s \<and> p (take n s) then [(take n s, drop n s)] else [])
                 alts)"

definition match_dot :: "pystr \<Rightarrow> pystr list" where
  "match_dot s = (case s of [] \<Rightarrow> [] | c # r \<Rightarrow> if c = 46 then [r] else [])"

definition format_regex_matches :: "pystr \<Rightarrow> (pystr \<times> pystr \<times> pystr \<times> pystr) list" where
  "format_regex_matches s =
     concat (map (\<lambda>(d, r1).
       concat (map (\<lambda>r2.
         concat (map (\<lambda>(m, r3).
           concat (map (\<lambda>r4.
             map (\<lambda>(y, r5). (d, m, y, r5)) (match_alts Y_alts r4))
             (match_dot r3)))
           (match_alts m_alts r2)))
         (match_dot r1)))
       (match_alts d_alts s))"

definition strptime :: "pystr \<Rightarrow> error + datetime" where
  "strptime s =
     (case format_regex_matches s of
        [] \<Rightarrow> Inl ValueError
      | (d, m, y, rest) # _ \<Rightarrow>
          if rest \<noteq> [] then Inl ValueError
          else
            (case date_new (int_of_str y) (int_of_str m) (int_of_str d) of
               Inl e \<Rightarrow> Inl e
             | Inr dt \<Rightarrow>
                 Inr \<lparr>date_part = dt, hour = 0, minute = 0, second = 0, microsecond = 0\<rparr>))"

subsection \<open>Birthday\<close>

text \<open>
  \<open>Birthday.__init__\<close> stores \<open>strptime(value, "%d.%m.%Y")\<close> and turns a \<open>ValueError\<close>
  into its own \<open>ValueError\<close>; any other exception would escape unchanged.
  \<open>Birthday.__str__\<close> is \<open>strftime("%d.%m.%Y")\<close>.
\<close>

datatype Birthday = Birthday (birthday_value: datetime)

definition Birthday_init :: "pystr \<Rightarrow> error + Birthday" where
  "Birthday_init v =
     (case strptime v of
        Inl e \<Rightarrow> (if e = ValueError then Inl ValueError else Inl e)
      | Inr t \<Rightarrow> Inr (Birthday t))"

definition Birthday_str :: "bool \<Rightarrow> Birthday \<Rightarrow> pystr" where
  "Birthday_str zp b = strftime_dmY zp (date_part (birthday_value b))"

section \<open>Record\<close>

text \<open>
  A \<open>Record\<close> object has a name, a list of \<open>Phone\<close> objects and an optional birthday.
  A method that mutates the record returns the outcome (an escaping exception or the
  returned value) together with the record as the call leaves it.
\<close>

record contact =
  name :: pystr
  phones :: "Phone list"
  birthday :: "Birthday option"

definition Record_init :: "pystr \<Rightarrow> contact" where
  "Record_init n = \<lparr>name = n, phones = [], birthday = None\<rparr>"

definition add_phone :: "pystr \<Rightarrow> contact \<Rightarrow> (error + unit) \<times> contact" where
  "add_phone phone r =
     (case Phone_init phone of
        Inl e \<Rightarrow> (Inl e, r)
      | Inr p \<Rightarrow> (Inr (), r\<lparr>phones := phones r @ [p]\<rparr>))"

definition remove_phone :: "pystr \<Rightarrow> contact \<Rightarrow> contact" where
  "remove_phone phone r = r\<lparr>phones := filter (\<lambda>p. phone_value p \<noteq> phone) (phones r)\<rparr>"

text \<open>
  \<open>edit_phone\<close> walks \<open>enumerate(self.phones)\<close>; at the first phone whose value equals
  \<open>old_phone\<close> it builds \<open>Phone(new_phone)\<close> (which may raise), stores it at that index and
  breaks. When no phone matches, the loop ends and nothing is raised or changed.
\<close>

fun edit_phone_loop ::
  "(nat \<times> Phone) list \<Rightarrow> pystr \<Rightarrow> pystr \<Rightarrow> contact \<Rightarrow> (error + unit) \<times> contact" where
  "edit_phone_loop [] old_phone new_phone r = (Inr (), r)"
| "edit_phone_loop ((i, phone) # rest) old_phone new_phone r =
     (if phone_value phone = old_phone then
        (case Phone_init new_phone of
           Inl e \<Rightarrow> (Inl e, r)
         | Inr p \<Rightarrow> (Inr (), r\<lparr>phones := (phones r)[i := p]\<rparr>))
      else edit_phone_loop rest old_phone new_phone r)"

definition edit_phone :: "pystr \<Rightarrow> pystr \<Rightarrow> contact \<Rightarrow> (error + unit) \<times> contact" where
  "edit_phone old_phone new_phone r =
     edit_phone_loop (enumerate 0 (phones r)) old_phone new_phone r"

definition add_birthday :: "pystr \<Rightarrow> contact \<Rightarrow> (error + unit) \<times> contact" where
  "add_birthday v r =
     (case Birthday_init v of
        Inl e \<Rightarrow> (Inl e, r)
      | Inr b \<Rightarrow> (Inr (), r\<lparr>birthday := Some b\<rparr>))"

text \<open>
  \<open>days_to_birthday\<close> reads the clock; the date it reads is the parameter \<open>today\<close>. The
  stored birthday is a \<open>datetime\<close> and \<open>today\<close> is a \<open>date\<close>: the method compares and
  subtracts the two as they are.
\<close>

definition days_to_birthday :: "date \<Rightarrow> contact \<Rightarrow> error + int option" where
  "days_to_birthday today r =
     (case birthday r of
        None \<Rightarrow> Inr None
      | Some b \<Rightarrow>
          (case datetime_replace_year (birthday_value b) (year today) of
             Inl e \<Rightarrow> Inl e
           | Inr next_birthday \<Rightarrow>
               (case datetime_lt_date next_birthday today of
                  Inl e \<Rightarrow> Inl e
                | Inr passed \<Rightarrow>
                    (case (if passed
                           then datetime_replace_year (birthday_value b) (year today + 1)
                           else Inr next_birthday) of
                       Inl e \<Rightarrow> Inl e
                     | Inr next_birthday' \<Rightarrow>
                         (case datetime_sub_date_days next_birthday' today of
                            Inl e \<Rightarrow> Inl e
                          | Inr n \<Rightarrow> Inr (Some n))))))"

section \<open>AddressBook\<close>

text \<open>
  The book is a dictionary from names to records; Python dictionaries keep insertion
  order, and assigning to a key that is present keeps its place. An association list
  with \<open>AList.update\<close> and \<open>AList.delete\<close> behaves so.
\<close>

type_synonym AddressBook = "(pystr \<times> contact) list"

definition add_record :: "contact \<Rightarrow> AddressBook \<Rightarrow> AddressBook" where
  "add_record r book = AList.update (name r) r book"

definition find_record :: "pystr \<Rightarrow> AddressBook \<Rightarrow> contact option" where
  "find_record n book = map_of book n"

definition delete_record :: "pystr \<Rightarrow> AddressBook \<Rightarrow> AddressBook" where
  "delete_record n book = (if n \<in> fst ` set book then AList.delete n book else book)"

text \<open>
  \<open>get_upcoming_birthdays\<close> returns a list of dictionaries with the keys \<open>name\<close> and
  \<open>congratulation_date\<close>. Here the birthday is converted with \<open>.date()\<close> before it is
  compared. \<open>birthday_this_year\<close> is the loop body's computation of the variable of that
  name; \<open>upcoming_step\<close> is what one record appends.
\<close>

record entry =
  entry_name :: pystr
  congratulation_date :: pystr

definition birthday_this_year :: "date \<Rightarrow> Birthday \<Rightarrow> error + date" where
  "birthday_this_year today b =
     (case datetime_replace_year (birthday_value b) (year today) of
        Inl e \<Rightarrow> Inl e
      | Inr v \<Rightarrow>
          if date_lt (date_part v) today then
            (case datetime_replace_year (birthday_value b) (year today + 1) of
               Inl e \<Rightarrow> Inl e
             | Inr v' \<Rightarrow> Inr (date_part v'))
          else Inr (date_part v))"

definition upcoming_step ::
  "bool \<Rightarrow> date \<Rightarrow> date \<Rightarrow> date \<Rightarrow> contact \<Rightarrow> date \<Rightarrow> entry list" where
  "upcoming_step zp today next_week first_day_of_next_week r bty =
     (if date_le today bty \<and> date_le bty next_week then
        (if weekday bty \<le> 4 then
           [\<lparr>entry_name = name r, congratulation_date = strftime_Ymd zp bty\<rparr>]
         else if weekday bty \<in> {5, 6} then
           [\<lparr>entry_name = name r,
             congratulation_date = strftime_Ymd zp first_day_of_next_week\<rparr>]
         else [])
      else [])"

fun upcoming_loop ::
  "bool \<Rightarrow> date \<Rightarrow> date \<Rightarrow> date \<Rightarrow> contact list \<Rightarrow> entry list \<Rightarrow> error + entry list" where
  "upcoming_loop zp today next_week first_day [] upcoming = Inr upcoming"
| "upcoming_loop zp today next_week first_day (r # rs) upcoming =
     (case birthday r of
        None \<Rightarrow> upcoming_loop zp today next_week first_day rs upcoming
      | Some b \<Rightarrow>
          (case birthday_this_year today b of
             Inl e \<Rightarrow> Inl e
           | Inr bty \<Rightarrow>
               upcoming_loop zp today next_week first_day rs
                 (upcoming @ upcoming_step zp today next_week first_day r bty)))"

definition get_upcoming_birthdays :: "bool \<Rightarrow> date \<Rightarrow> AddressBook \<Rightarrow> error + entry list" where
  "get_upcoming_birthdays zp today book =
     (case date_add_days today 7 of
        Inl e \<Rightarrow> Inl e
      | Inr next_week \<Rightarrow>
          (case date_sub_days next_week (weekday next_week) of
             Inl e \<Rightarrow> Inl e
           | Inr first_day_of_next_week \<Rightarrow>
               (case upcoming_loop zp today next_week first_day_of_next_week (map snd book) [] of
                  Inl e \<Rightarrow> Inl e
                | Inr upcoming \<Rightarrow> Inr (sort_key congratulation_date upcoming))))"

section \<open>Auxiliary notions for the statements\<close>

text \<open>The index of the first phone whose value is \<open>old\<close> (the length of the list if none).\<close>

definition first_index :: "pystr \<Rightarrow> Phone list \<Rightarrow> nat" where
  "first_index old ps = length (takeWhile (\<lambda>q. phone_value q \<noteq> old) ps)"

text \<open>
  Sequences of the book's operations, for the invariant that every key is the name of
  its record. \<open>find\<close> returns a value and leaves the book as it is.
\<close>

datatype book_op = AddRecord contact | Delete pystr | Find pystr

fun apply_book_op :: "book_op \<Rightarrow> AddressBook \<Rightarrow> AddressBook" where
  "apply_book_op (AddRecord r) book = add_record r book"
| "apply_book_op (Delete n) book = delete_record n book"
| "apply_book_op (Find n) book = book"

definition run_book_ops :: "book_op list \<Rightarrow> AddressBook \<Rightarrow> AddressBook" where
  "run_book_ops ops book = foldl (\<lambda>b x. apply_book_op x b) book ops"

definition keys_consistent :: "AddressBook \<Rightarrow> bool" where
  "keys_consistent book = (distinct (map fst book) \<and> list_all (\<lambda>(k, r). name r = k) book)"

text \<open>
  What one record contributes to the result of \<open>get_upcoming_birthdays\<close>, and whether the
  loop body runs through for it without raising.
\<close>

definition record_ok :: "date \<Rightarrow> contact \<Rightarrow> bool" where
  "record_ok today r =
     (case birthday r of
        None \<Rightarrow> True
      | Some b \<Rightarrow> (case birthday_this_year today b of Inl _ \<Rightarrow> False | Inr _ \<Rightarrow> True))"

definition record_entries :: "bool \<Rightarrow> date \<Rightarrow> date \<Rightarrow> date \<Rightarrow> contact \<Rightarrow> entry list" where
  "record_entries zp today next_week first_day r =
     (case birthday r of
        None \<Rightarrow> []
      | Some b \<Rightarrow>
          (case birthday_this_year today b of
             Inl _ \<Rightarrow> []
           | Inr bty \<Rightarrow> upcoming_step zp today next_week first_day r bty))"

text \<open>
  The three fields of the format \<open>%d.%m.%Y\<close> as predicates on strings: what each group of
  the regular expression accepts.
\<close>

definition day_field :: "pystr \<Rightarrow> bool" where
  "day_field f =
     (case f of
        [a] \<Rightarrow> btw 49 57 a
      | [a, b] \<Rightarrow>
          (a = 51 \<and> btw 48 49 b) \<or> (btw 49 50 a \<and> re_digit b) \<or>
          (a = 48 \<and> btw 49 57 b) \<or> (a = 32 \<and> btw 49 57 b)
      | _ \<Rightarrow> False)"

definition month_field :: "pystr \<Rightarrow> bool" where
  "month_field f =
     (case f of
        [a] \<Rightarrow> btw 49 57 a
      | [a, b] \<Rightarrow> (a = 49 \<and> btw 48 50 b) \<or> (a = 48 \<and> btw 49 57 b)
      | _ \<Rightarrow> False)"

definition year_field :: "pystr \<Rightarrow> bool" where
  "year_field f = (length f = 4 \<and> list_all re_digit f)"

text \<open>
  The specification's own notion of a valid birthday string, in its words: the literal
  pattern \<open>DD.MM.YYYY\<close> (two-digit day, two-digit month, four-digit year, ASCII digits,
  separated by dots) that denotes a real calendar date. \<open>ascii_num\<close> reads a string of
  ASCII digits as a decimal number.
\<close>

definition ascii_num :: "pystr \<Rightarrow> int" where
  "ascii_num s = foldl (\<lambda>acc c. 10 * acc + (int c - 48)) 0 s"

definition is_ddmmyyyy :: "pystr \<Rightarrow> bool" where
  "is_ddmmyyyy s =
     (length s = 10 \<and> s ! 2 = 46 \<and> s ! 5 = 46 \<and>
      list_all ascii_digit (take 2 s @ take 2 (drop 3 s) @ drop 6 s) \<and>
      valid_ymd (ascii_num (drop 6 s)) (ascii_num (take 2 (drop 3 s))) (ascii_num (take 2 s)))"

text \<open>
  The occurrence of a birthday that the specification speaks of: the birthday's month
  and day in the year of \<open>today\<close>, or in the next year if that day of this year has
  already passed.
\<close>

definition passed_this_year :: "date \<Rightarrow> date \<Rightarrow> bool" where
  "passed_this_year today bd =
     (month bd < month today \<or> (month bd = month today \<and> day bd < day today))"

definition next_occurrence :: "date \<Rightarrow> date \<Rightarrow> date" where
  "next_occurrence today bd =
     \<lparr>year = (if passed_this_year today bd then year today + 1 else year today),
      month = month bd, day = day bd\<rparr>"

section \<open>Phone numbers\<close>

lemma re_digit_low: "re_digit c \<Longrightarrow> c < 1632 \<Longrightarrow> ascii_digit c"
  by (auto simp: re_digit_def Nd_ranges_def in_range_def ascii_digit_def)

lemma ascii_digit_re_digit: "ascii_digit c \<Longrightarrow> re_digit c"
  by (simp add: ascii_digit_def re_digit_def Nd_ranges_def in_range_def)

lemma validate_cases: "validate s = Inr () \<or> validate s = Inl ValueError"
  by (simp add: validate_def)

text \<open>
  Claim C4 as stated fails: the ten Arabic-Indic digits U+0661..U+0669, U+0660 are not
  ASCII digits, yet \<open>\d{10}\<close> matches them and \<open>validate\<close> accepts the string.
\<close>

theorem phone_validate_unicode_counterexample:
  "validate [1633, 1634, 1635, 1636, 1637, 1638, 1639, 1640, 1641, 1632] = Inr () \<and>
   \<not> list_all ascii_digit [1633, 1634, 1635, 1636, 1637, 1638, 1639, 1640, 1641, 1632]"
  by (simp add: validate_def fullmatch_d10_def re_digit_def Nd_ranges_def in_range_def
      ascii_digit_def)

text \<open>
  Claim C4, amended: for every string \<open>s\<close>, validation succeeds exactly when \<open>s\<close> consists
  of exactly 10 characters of the class \<open>\d\<close> (Unicode decimal digits); for a string
  whose code points are all below U+0660, in particular for every ASCII string, that
  is exactly when \<open>s\<close> consists of exactly 10 ASCII decimal digits, and every string of
  10 ASCII digits is accepted. On success the stored value equals \<open>s\<close> unchanged, and
  every other string fails with \<open>ValueError\<close>.
\<close>

theorem phone_validate_iff:
  "(validate s = Inr () \<longleftrightarrow> length s = 10 \<and> (\<forall>c \<in> set s. re_digit c)) \<and>
   ((\<forall>c \<in> set s. c < 1632) \<longrightarrow>
      (validate s = Inr () \<longleftrightarrow> length s = 10 \<and> (\<forall>c \<in> set s. ascii_digit c))) \<and>
   (length s = 10 \<and> (\<forall>c \<in> set s. ascii_digit c) \<longrightarrow> validate s = Inr ()) \<and>
   (validate s = Inr () \<longrightarrow> Phone_init s = Inr (Phone s) \<and> phone_value (Phone s) = s) \<and>
   (validate s \<noteq> Inr () \<longrightarrow> validate s = Inl ValueError \<and> Phone_init s = Inl ValueError)"
proof -
  have a: "validate s = Inr () \<longleftrightarrow> length s = 10 \<and> (\<forall>c \<in> set s. re_digit c)"
    by (simp add: validate_def fullmatch_d10_def list_all_iff)
  have b: "(\<forall>c \<in> set s. c < 1632) \<longrightarrow>
      (validate s = Inr () \<longleftrightarrow> length s = 10 \<and> (\<forall>c \<in> set s. ascii_digit c))"
    unfolding a using re_digit_low ascii_digit_re_digit by blast
  have c: "length s = 10 \<and> (\<forall>c \<in> set s. ascii_digit c) \<longrightarrow> validate s = Inr ()"
    unfolding a using ascii_digit_re_digit by blast
  have d: "validate s = Inr () \<longrightarrow> Phone_init s = Inr (Phone s) \<and> phone_value (Phone s) = s"
    by (simp add: Phone_init_def)
  have e: "validate s \<noteq> Inr () \<longrightarrow> validate s = Inl ValueError \<and> Phone_init s = Inl ValueError"
    using validate_cases [of s] by (auto simp: Phone_init_def)
  from a b c d e show ?thesis by blast
qed

theorem phone_validate_iff_witness:
  "validate (ascii ''0501234567'') = Inr () \<and>
   Phone_init (ascii ''0501234567'') = Inr (Phone (ascii ''0501234567'')) \<and>
   validate (ascii ''+380501234'') = Inl ValueError \<and>
   Phone_init (ascii ''050 123456'') = Inl ValueError"
proof -
  have 1: "length (ascii ''0501234567'') = 10 \<and> (\<forall>c \<in> set (ascii ''0501234567''). ascii_digit c)"
    by (simp add: ascii_def ascii_digit_def)
  have 2: "\<not> (\<forall>c \<in> set (ascii ''+380501234''). re_digit c)"
    by (simp add: ascii_def re_digit_def Nd_ranges_def in_range_def)
  have 3: "\<not> (\<forall>c \<in> set (ascii ''050 123456''). re_digit c)"
    by (simp add: ascii_def re_digit_def Nd_ranges_def in_range_def)
  show ?thesis
    using 1 2 3 phone_validate_iff [of "ascii ''0501234567''"]
      phone_validate_iff [of "ascii ''+380501234''"] phone_validate_iff [of "ascii ''050 123456''"]
    by blast
qed

section \<open>Editing and adding phones\<close>

lemma edit_phone_loop_found:
  "Phone_init new = Inr p \<Longrightarrow> old \<in> phone_value ` set ps \<Longrightarrow>
   edit_phone_loop (enumerate k ps) old new r =
     (Inr (), r\<lparr>phones := (phones r)[k + first_index old ps := p]\<rparr>)"
  by (induction ps arbitrary: k) (auto simp: first_index_def)

lemma edit_phone_loop_absent:
  "old \<notin> phone_value ` set ps \<Longrightarrow> edit_phone_loop (enumerate k ps) old new r = (Inr (), r)"
  by (induction ps arbitrary: k) auto

lemma edit_phone_loop_invalid:
  "Phone_init new = Inl e \<Longrightarrow> old \<in> phone_value ` set ps \<Longrightarrow>
   edit_phone_loop (enumerate k ps) old new r = (Inl e, r)"
  by (induction ps arbitrary: k) auto

lemma first_index_props:
  "old \<in> phone_value ` set ps \<Longrightarrow>
   first_index old ps < length ps \<and> phone_value (ps ! first_index old ps) = old \<and>
   (\<forall>j < first_index old ps. phone_value (ps ! j) \<noteq> old)"
proof (induction ps)
  case Nil
  then show ?case by simp
next
  case (Cons q qs)
  show ?case
  proof (cases "phone_value q = old")
    case True
    then show ?thesis by (simp add: first_index_def)
  next
    case False
    with Cons.prems have "old \<in> phone_value ` set qs" by auto
    from Cons.IH [OF this] False show ?thesis
      by (auto simp: first_index_def nth_Cons split: nat.splits)
  qed
qed

text \<open>
  Claim C7: for every record whose phone list contains an entry equal to \<open>old\<close>, and
  every valid \<open>new\<close>, \<open>edit_phone old new\<close> returns normally and replaces the first entry
  equal to \<open>old\<close> by \<open>new\<close> at the same position; the length of the list, all other
  entries, the name and the birthday are unchanged.
\<close>

theorem edit_phone_replaces_first:
  assumes "old \<in> phone_value ` set (phones r)" and "validate new = Inr ()"
  shows "\<exists>i < length (phones r).
           phone_value (phones r ! i) = old \<and>
           (\<forall>j < i. phone_value (phones r ! j) \<noteq> old) \<and>
           edit_phone old new r = (Inr (), r\<lparr>phones := (phones r)[i := Phone new]\<rparr>) \<and>
           length (phones (snd (edit_phone old new r))) = length (phones r) \<and>
           phones (snd (edit_phone old new r)) ! i = Phone new \<and>
           (\<forall>j < length (phones r). j \<noteq> i \<longrightarrow>
              phones (snd (edit_phone old new r)) ! j = phones r ! j) \<and>
           name (snd (edit_phone old new r)) = name r \<and>
           birthday (snd (edit_phone old new r)) = birthday r"
proof -
  let ?i = "first_index old (phones r)"
  have p: "Phone_init new = Inr (Phone new)"
    using assms(2) by (simp add: Phone_init_def)
  have e: "edit_phone old new r = (Inr (), r\<lparr>phones := (phones r)[?i := Phone new]\<rparr>)"
    using edit_phone_loop_found [OF p assms(1), of 0 r] by (simp add: edit_phone_def)
  have f: "?i < length (phones r)" "phone_value (phones r ! ?i) = old"
    "\<forall>j < ?i. phone_value (phones r ! j) \<noteq> old"
    using first_index_props [OF assms(1)] by auto
  show ?thesis
    by (rule exI [of _ ?i]) (use e f in simp)
qed

theorem edit_phone_replaces_first_witness:
  "edit_phone (ascii ''2222222222'') (ascii ''3333333333'')
     \<lparr>name = ascii ''Carl'',
      phones = [Phone (ascii ''1111111111''), Phone (ascii ''2222222222''),
                Phone (ascii ''2222222222'')],
      birthday = None\<rparr>
   = (Inr (),
      \<lparr>name = ascii ''Carl'',
       phones = [Phone (ascii ''1111111111''), Phone (ascii ''3333333333''),
                 Phone (ascii ''2222222222'')],
       birthday = None\<rparr>)"
proof -
  let ?r = "\<lparr>name = ascii ''Carl'',
      phones = [Phone (ascii ''1111111111''), Phone (ascii ''2222222222''),
                Phone (ascii ''2222222222'')],
      birthday = None\<rparr>"
  have h1: "ascii ''2222222222'' \<in> phone_value ` set (phones ?r)" by simp
  have h2: "validate (ascii ''3333333333'') = Inr ()"
    by (simp add: validate_def fullmatch_d10_def ascii_def re_digit_def Nd_ranges_def in_range_def)
  from edit_phone_replaces_first [OF h1 h2]
  obtain i where i: "i < length (phones ?r)"
      "\<forall>j < i. phone_value (phones ?r ! j) \<noteq> ascii ''2222222222''"
      "phone_value (phones ?r ! i) = ascii ''2222222222''"
      "edit_phone (ascii ''2222222222'') (ascii ''3333333333'') ?r =
         (Inr (), ?r\<lparr>phones := (phones ?r)[i := Phone (ascii ''3333333333'')]\<rparr>)"
    by blast
  from i(1) have "i = 0 \<or> i = 1 \<or> i = 2" by auto
  moreover have "i \<noteq> 0" using i(3) by (cases "i = 0") (simp_all add: ascii_def)
  moreover have "i \<noteq> 2"
  proof
    assume "i = 2"
    from i(2) have "1 < i \<longrightarrow> phone_value (phones ?r ! 1) \<noteq> ascii ''2222222222''"
      by blast
    with \<open>i = 2\<close> show False by simp
  qed
  ultimately have "i = 1" by blast
  with i(4) show ?thesis by simp
qed

text \<open>
  Claim C8: a \<open>ValueError\<close> raised by \<open>add_phone\<close>, or by \<open>edit_phone\<close> with an invalid new
  number, leaves the record as it was (name, phone list and birthday); every invalid
  input makes \<open>add_phone\<close> raise, and makes \<open>edit_phone\<close> raise when the old number is
  present (when it is absent nothing is raised and nothing changes). In particular
  \<open>add_phone("12345")\<close> on a fresh record fails and the phone list stays empty.
\<close>

theorem validation_failure_leaves_record:
  "(fst (add_phone raw r) = Inl e \<longrightarrow> snd (add_phone raw r) = r) \<and>
   (fst (edit_phone old new r) = Inl e \<longrightarrow> snd (edit_phone old new r) = r) \<and>
   (validate raw \<noteq> Inr () \<longrightarrow> add_phone raw r = (Inl ValueError, r)) \<and>
   (validate new \<noteq> Inr () \<longrightarrow>
      snd (edit_phone old new r) = r \<and>
      (old \<in> phone_value ` set (phones r) \<longrightarrow> fst (edit_phone old new r) = Inl ValueError)) \<and>
   add_phone (ascii ''12345'') (Record_init n) = (Inl ValueError, Record_init n) \<and>
   phones (Record_init n) = []"
proof -
  have a: "fst (add_phone raw r) = Inl e \<longrightarrow> snd (add_phone raw r) = r" for raw
    by (simp add: add_phone_def split: sum.splits)
  have P: "Phone_init x = Inl ValueError" if "validate x \<noteq> Inr ()" for x
    using that validate_cases [of x] by (auto simp: Phone_init_def)
  have c: "validate raw \<noteq> Inr () \<longrightarrow> add_phone raw r = (Inl ValueError, r)" for raw r
    using P [of raw] by (auto simp: add_phone_def)
  have b: "fst (edit_phone old new r) = Inl e \<longrightarrow> snd (edit_phone old new r) = r"
  proof (cases "old \<in> phone_value ` set (phones r)")
    case True
    show ?thesis
    proof (cases "Phone_init new")
      case (Inl x)
      from edit_phone_loop_invalid [OF Inl True, of 0 r] show ?thesis
        by (simp add: edit_phone_def)
    next
      case (Inr p)
      from edit_phone_loop_found [OF Inr True, of 0 r] show ?thesis
        by (simp add: edit_phone_def)
    qed
  next
    case False
    from edit_phone_loop_absent [OF False, of 0 new r] show ?thesis
      by (simp add: edit_phone_def)
  qed
  have d: "validate new \<noteq> Inr () \<longrightarrow>
      snd (edit_phone old new r) = r \<and>
      (old \<in> phone_value ` set (phones r) \<longrightarrow> fst (edit_phone old new r) = Inl ValueError)"
  proof (cases "old \<in> phone_value ` set (phones r)")
    case True
    show ?thesis
    proof
      assume "validate new \<noteq> Inr ()"
      from edit_phone_loop_invalid [OF P [OF this] True, of 0 r] show
        "snd (edit_phone old new r) = r \<and>
      (old \<in> phone_value ` set (phones r) \<longrightarrow> fst (edit_phone old new r) = Inl ValueError)"
        by (simp add: edit_phone_def)
    qed
  next
    case False
    from edit_phone_loop_absent [OF False, of 0 new r] False show ?thesis
      by (simp add: edit_phone_def)
  qed
  have v: "validate (ascii ''12345'') \<noteq> Inr ()"
    by (simp add: validate_def fullmatch_d10_def ascii_def)
  have f: "add_phone (ascii ''12345'') (Record_init n) = (Inl ValueError, Record_init n)"
    using c v by blast
  have g: "phones (Record_init n) = []" by (simp add: Record_init_def)
  from a b c d f g show ?thesis by blast
qed

theorem validation_failure_leaves_record_witness:
  "add_phone (ascii ''12-34'') \<lparr>name = ascii ''Carl'', phones = [Phone (ascii ''1111111111'')], birthday = None\<rparr>
     = (Inl ValueError, \<lparr>name = ascii ''Carl'', phones = [Phone (ascii ''1111111111'')], birthday = None\<rparr>) \<and>
   edit_phone (ascii ''1111111111'') (ascii ''12-34'')
       \<lparr>name = ascii ''Carl'', phones = [Phone (ascii ''1111111111'')], birthday = None\<rparr>
     = (Inl ValueError, \<lparr>name = ascii ''Carl'', phones = [Phone (ascii ''1111111111'')], birthday = None\<rparr>)"
proof -
  let ?r = "\<lparr>name = ascii ''Carl'', phones = [Phone (ascii ''1111111111'')], birthday = None\<rparr>"
  have v: "validate (ascii ''12-34'') \<noteq> Inr ()"
    by (simp add: validate_def fullmatch_d10_def ascii_def)
  have m: "ascii ''1111111111'' \<in> phone_value ` set (phones ?r)" by simp
  from validation_failure_leaves_record
    [of "ascii ''12-34''" ?r ValueError "ascii ''1111111111''" "ascii ''12-34''" "[]"] v m
  show ?thesis by (metis prod.collapse)
qed

section \<open>The address book\<close>

lemma keys_consistent_update:
  "keys_consistent book \<Longrightarrow> keys_consistent (AList.update (name r) r book)"
proof -
  have "list_all (\<lambda>(k, r). name r = k) book \<Longrightarrow>
        list_all (\<lambda>(k, r). name r = k) (AList.update (name r) r book)"
    by (induction book) auto
  then show "keys_consistent book \<Longrightarrow> keys_consistent (AList.update (name r) r book)"
    by (simp add: keys_consistent_def AList.distinct_update)
qed

lemma keys_consistent_delete:
  "keys_consistent book \<Longrightarrow> keys_consistent (AList.delete n book)"
proof -
  assume k: "keys_consistent book"
  then have "distinct (map fst (AList.delete n book))"
    by (simp add: keys_consistent_def AList.distinct_delete)
  moreover have "list_all (\<lambda>(k, r). name r = k) (AList.delete n book)"
    using k by (auto simp: keys_consistent_def AList.delete_eq list_all_iff)
  ultimately show ?thesis by (simp add: keys_consistent_def)
qed

lemma keys_consistent_step:
  "keys_consistent book \<Longrightarrow> keys_consistent (apply_book_op x book)"
  by (cases x) (simp_all add: add_record_def delete_record_def keys_consistent_update
      keys_consistent_delete)

lemma keys_consistent_run:
  "keys_consistent book \<Longrightarrow> keys_consistent (run_book_ops ops book)"
  unfolding run_book_ops_def
  by (induction ops arbitrary: book) (simp_all add: keys_consistent_step)

text \<open>
  Claim C10: starting from the empty book, after any sequence of \<open>add_record\<close>,
  \<open>delete\<close> and \<open>find\<close>, every key of the book is the name of the record it maps to (and
  no key occurs twice), and whenever \<open>find n\<close> returns a record, its name is \<open>n\<close>.
\<close>

theorem book_keys_are_names:
  "keys_consistent (run_book_ops ops []) \<and>
   (\<forall>(k, r) \<in> set (run_book_ops ops []). name r = k) \<and>
   (find_record n (run_book_ops ops []) = Some r \<longrightarrow> name r = n)"
proof -
  have k: "keys_consistent (run_book_ops ops [])"
    by (rule keys_consistent_run) (simp add: keys_consistent_def)
  then have a: "\<forall>(k, r) \<in> set (run_book_ops ops []). name r = k"
    by (simp add: keys_consistent_def list_all_iff)
  have "find_record n (run_book_ops ops []) = Some r \<longrightarrow> name r = n"
    using a by (auto simp: find_record_def dest: map_of_SomeD)
  with k a show ?thesis by blast
qed

theorem book_keys_are_names_witness:
  "find_record (ascii ''Bob'')
     (run_book_ops [AddRecord (Record_init (ascii ''Anna'')), AddRecord (Record_init (ascii ''Bob'')),
                    Delete (ascii ''Anna''), Find (ascii ''Bob'')] [])
     = Some (Record_init (ascii ''Bob'')) \<and>
   name (Record_init (ascii ''Bob'')) = ascii ''Bob''"
proof -
  let ?ops = "[AddRecord (Record_init (ascii ''Anna'')), AddRecord (Record_init (ascii ''Bob'')),
                    Delete (ascii ''Anna''), Find (ascii ''Bob'')]"
  have f: "find_record (ascii ''Bob'') (run_book_ops ?ops []) = Some (Record_init (ascii ''Bob''))"
    by (simp add: run_book_ops_def add_record_def delete_record_def find_record_def
        Record_init_def ascii_def AList.delete_eq)
  with book_keys_are_names [of ?ops "ascii ''Bob''" "Record_init (ascii ''Bob'')"]
  show ?thesis by blast
qed

section \<open>Calendar arithmetic\<close>

text \<open>
  Facts about the library's date functions: how the day count grows from one year to the
  next, that dates are ordered as their ordinals are, and that \<open>ord2ymd\<close> inverts
  \<open>ymd2ord\<close> and yields a date that exists.
\<close>


lemma div_step:
  fixes y k :: int
  assumes "0 < k"
  shows "y div k = (y - 1) div k + (if y mod k = 0 then 1 else 0)"
proof -
  define q where "q = (y - 1) div k"
  define r where "r = (y - 1) mod k"
  have y: "y - 1 = k * q + r" by (simp add: q_def r_def)
  have r: "0 \<le> r" "r < k" using assms by (simp_all add: r_def)
  show ?thesis
  proof (cases "r = k - 1")
    case True
    then have e: "y = k * (q + 1) + 0" using y by (simp add: algebra_simps)
    have "y div k = q + 1" by (rule int_div_pos_eq [OF e]) (use assms in simp_all)
    moreover have "y mod k = 0" by (rule int_mod_pos_eq [OF e]) (use assms in simp_all)
    ultimately show ?thesis by (simp add: q_def)
  next
    case False
    then have b: "0 \<le> r + 1" "r + 1 < k" using r by simp_all
    have e: "y = k * q + (r + 1)" using y by simp
    have "y div k = q" by (rule int_div_pos_eq [OF e b])
    moreover have "y mod k = r + 1" by (rule int_mod_pos_eq [OF e b])
    ultimately show ?thesis using r by (simp add: q_def)
  qed
qed

lemma div_step_dvd:
  fixes y k :: int
  shows "0 < k \<Longrightarrow> y mod k = 0 \<Longrightarrow> y div k = (y - 1) div k + 1"
  using div_step [of k y] by simp

lemma div_step_ndvd:
  fixes y k :: int
  shows "0 < k \<Longrightarrow> y mod k \<noteq> 0 \<Longrightarrow> y div k = (y - 1) div k"
  using div_step [of k y] by simp

lemma dby_step:
  "days_before_year (y + 1) = days_before_year y + (if is_leap y then 366 else 365)"
proof -
  define q4 where "q4 = (y - 1) div 4"
  define q100 where "q100 = (y - 1) div 100"
  define q400 where "q400 = (y - 1) div 400"
  define p4 where "p4 = y div 4"
  define p100 where "p100 = y div 100"
  define p400 where "p400 = y div 400"
  define c4 where "c4 \<longleftrightarrow> y mod 4 = 0"
  define c100 where "c100 \<longleftrightarrow> y mod 100 = 0"
  define c400 where "c400 \<longleftrightarrow> y mod 400 = 0"
  have y: "y + 1 - 1 = y" by simp
  have a: "days_before_year (y + 1) = y * 365 + p4 - p100 + p400"
    unfolding days_before_year_def Let_def y p4_def p100_def p400_def by (rule refl)
  have b: "days_before_year y = (y - 1) * 365 + q4 - q100 + q400"
    unfolding days_before_year_def Let_def q4_def q100_def q400_def by (rule refl)
  have m4: "c100 \<Longrightarrow> c4"
    unfolding c100_def c4_def using mod_mod_cancel [of 4 100 y] by simp
  have m100: "c400 \<Longrightarrow> c100"
    unfolding c100_def c400_def using mod_mod_cancel [of 100 400 y] by simp
  have s4: "p4 = q4 + (if c4 then 1 else 0)"
    unfolding p4_def q4_def c4_def by (rule div_step) simp
  have s100: "p100 = q100 + (if c100 then 1 else 0)"
    unfolding p100_def q100_def c100_def by (rule div_step) simp
  have s400: "p400 = q400 + (if c400 then 1 else 0)"
    unfolding p400_def q400_def c400_def by (rule div_step) simp
  have l: "is_leap y = (c4 \<and> (\<not> c100 \<or> c400))"
    unfolding is_leap_def c4_def c100_def c400_def by (rule refl)
  show ?thesis
    unfolding a b s4 s100 s400 l using m4 m100
    by (cases c4; cases c100; cases c400; simp add: algebra_simps)
qed

lemma month_cases:
  fixes m :: int
  assumes "1 \<le> m" "m \<le> 12"
  shows "m = 1 \<or> m = 2 \<or> m = 3 \<or> m = 4 \<or> m = 5 \<or> m = 6 \<or> m = 7 \<or> m = 8 \<or> m = 9 \<or> m = 10 \<or> m = 11 \<or> m = 12"
  using assms by arith

lemma dbm_step:
  assumes "1 \<le> m" "m \<le> 11"
  shows "days_before_month y (m + 1) = days_before_month y m + days_in_month y m"
proof -
  from assms have "m = 1 \<or> m = 2 \<or> m = 3 \<or> m = 4 \<or> m = 5 \<or> m = 6 \<or> m = 7 \<or> m = 8 \<or> m = 9 \<or> m = 10 \<or> m = 11"
    by arith
  then show ?thesis
    by (elim disjE) (simp_all add: days_before_month_def days_in_month_def DAYS_BEFORE_MONTH_def
        DAYS_IN_MONTH_def)
qed

lemma dim_bounds:
  assumes "1 \<le> m" "m \<le> 12"
  shows "28 \<le> days_in_month y m \<and> days_in_month y m \<le> 31"
  using month_cases [OF assms]
  by (elim disjE) (simp_all add: days_in_month_def DAYS_IN_MONTH_def)

lemma dbm_bounds:
  assumes "1 \<le> m" "m \<le> 12"
  shows "0 \<le> days_before_month y m \<and>
         days_before_month y m + days_in_month y m \<le> (if is_leap y then 366 else 365)"
  using month_cases [OF assms]
  by (elim disjE) (simp_all add: days_before_month_def days_in_month_def DAYS_BEFORE_MONTH_def
        DAYS_IN_MONTH_def)

lemma dbm_mono:
  assumes "1 \<le> m1" "m1 < m2" "m2 \<le> 12"
  shows "days_before_month y m1 + days_in_month y m1 \<le> days_before_month y m2"
proof -
  have "m1 + 1 \<le> m2" using assms by simp
  then show ?thesis using assms(1,3)
  proof (induction m2 rule: int_ge_induct)
    case base
    then show ?case using dbm_step [of m1 y] by simp
  next
    case (step i)
    then have "days_before_month y m1 + days_in_month y m1 \<le> days_before_month y i" by simp
    moreover have "days_before_month y (i + 1) = days_before_month y i + days_in_month y i"
      using step by (intro dbm_step) simp_all
    moreover have "0 \<le> days_in_month y i" using dim_bounds [of i y] step by simp
    ultimately show ?case by simp
  qed
qed

lemma dby_mono: "y1 \<le> y2 \<Longrightarrow> days_before_year y1 \<le> days_before_year y2"
proof (induction y2 rule: int_ge_induct)
  case base
  show ?case by simp
next
  case (step i)
  have "days_before_year i \<le> days_before_year (i + 1)"
    unfolding dby_step by simp
  with step show ?case by simp
qed

lemma ymd2ord_bounds:
  assumes "1 \<le> m" "m \<le> 12" "1 \<le> d" "d \<le> days_in_month y m"
  shows "days_before_year y < ymd2ord y m d \<and> ymd2ord y m d \<le> days_before_year (y + 1)"
proof -
  from dbm_bounds [OF assms(1,2), of y] assms(3,4)
  have "0 < days_before_month y m + d"
    "days_before_month y m + d \<le> (if is_leap y then 366 else 365)"
    by (simp_all split: if_splits)
  then show ?thesis unfolding ymd2ord_def dby_step by simp
qed

lemma ymd2ord_less:
  assumes a: "1 \<le> m1" "m1 \<le> 12" "1 \<le> d1" "d1 \<le> days_in_month y1 m1"
    and b: "1 \<le> m2" "m2 \<le> 12" "1 \<le> d2" "d2 \<le> days_in_month y2 m2"
    and lt: "y1 < y2 \<or> (y1 = y2 \<and> (m1 < m2 \<or> (m1 = m2 \<and> d1 < d2)))"
  shows "ymd2ord y1 m1 d1 < ymd2ord y2 m2 d2"
proof -
  consider "y1 < y2" | "y1 = y2" "m1 < m2" | "y1 = y2" "m1 = m2" "d1 < d2"
    using lt by blast
  then show ?thesis
  proof cases
    case 1
    then have "days_before_year (y1 + 1) \<le> days_before_year y2"
      by (intro dby_mono) simp
    with ymd2ord_bounds [OF a] ymd2ord_bounds [OF b] show ?thesis by linarith
  next
    case 2
    from dbm_mono [OF a(1) 2(2) b(2), of y1] a(4) b(3) 2(1)
    show ?thesis unfolding ymd2ord_def by simp
  next
    case 3
    then show ?thesis unfolding ymd2ord_def by simp
  qed
qed

lemma toordinal_less:
  assumes "valid_date a" "valid_date b" "date_lt a b"
  shows "toordinal a < toordinal b"
  using assms unfolding valid_date_def valid_ymd_def toordinal_def date_lt_def
  by (intro ymd2ord_less) simp_all

lemma date_trichotomy:
  "date_lt a b \<or> date_lt b a \<or> (year a = year b \<and> month a = month b \<and> day a = day b)"
  unfolding date_lt_def by linarith

lemma date_lt_iff:
  assumes "valid_date a" "valid_date b"
  shows "date_lt a b \<longleftrightarrow> toordinal a < toordinal b"
proof
  assume "date_lt a b"
  then show "toordinal a < toordinal b" by (rule toordinal_less [OF assms])
next
  assume l: "toordinal a < toordinal b"
  from date_trichotomy [of a b] show "date_lt a b"
  proof (elim disjE)
    assume "date_lt b a"
    from toordinal_less [OF assms(2,1) this] l show ?thesis by simp
  next
    assume "year a = year b \<and> month a = month b \<and> day a = day b"
    then have "toordinal a = toordinal b" by (simp add: toordinal_def)
    with l show ?thesis by simp
  qed
qed

lemma date_le_iff:
  assumes "valid_date a" "valid_date b"
  shows "date_le a b \<longleftrightarrow> toordinal a \<le> toordinal b"
  unfolding date_le_def date_lt_iff [OF assms(2,1)] by auto

lemma toordinal_inj:
  assumes "valid_date a" "valid_date b" "toordinal a = toordinal b"
  shows "year a = year b \<and> month a = month b \<and> day a = day b"
  using date_trichotomy [of a b] toordinal_less [OF assms(1,2)] toordinal_less [OF assms(2,1)]
    assms(3) by auto

lemma month_day_of_correct:
  assumes n: "0 \<le> n" "n \<le> (if L then 365 else 364)"
    and md: "month_day_of L n = (m, d)"
  shows "1 \<le> m \<and> m \<le> 12 \<and> 1 \<le> d \<and>
         d \<le> (if m = 2 \<and> L then 29 else DAYS_IN_MONTH ! nat m) \<and>
         DAYS_BEFORE_MONTH ! nat m + (if m > 2 \<and> L then 1 else 0) + d = n + 1"
proof -
  define e where "e = (n + 50) div 32"
  define r where "r = (n + 50) mod 32"
  have nr: "n + 50 = 32 * e + r" unfolding e_def r_def by (rule mult_div_mod_eq [symmetric])
  have r: "0 \<le> r" "r < 32" unfolding r_def by simp_all
  have n': "n \<le> 365" using n(2) by (simp split: if_splits)
  have e: "1 \<le> e" "e \<le> 12" using nr r n(1) n' by linarith+
  have u: "month_day_of L n =
     (let m = e;
          preceding = DAYS_BEFORE_MONTH ! nat m + (if m > 2 \<and> L then 1 else 0)
      in if preceding > n then
           let m' = m - 1;
               preceding' =
                 preceding - (DAYS_IN_MONTH ! nat m' + (if m' = 2 \<and> L then 1 else 0))
           in (m', n - preceding' + 1)
         else (m, n - preceding + 1))"
    unfolding month_day_of_def e_def by (rule refl)
  have md': "(let m = e;
          preceding = DAYS_BEFORE_MONTH ! nat m + (if m > 2 \<and> L then 1 else 0)
      in if preceding > n then
           let m' = m - 1;
               preceding' =
                 preceding - (DAYS_IN_MONTH ! nat m' + (if m' = 2 \<and> L then 1 else 0))
           in (m', n - preceding' + 1)
         else (m, n - preceding + 1)) = (m, d)"
    using md unfolding u .
  from month_cases [OF e] show ?thesis
  proof (elim disjE)
    assume "e = 1"
    with nr r n md' show ?thesis
      by (auto simp: Let_def DAYS_BEFORE_MONTH_def DAYS_IN_MONTH_def split: if_splits)
  next
    assume "e = 2"
    with nr r n md' show ?thesis
      by (auto simp: Let_def DAYS_BEFORE_MONTH_def DAYS_IN_MONTH_def split: if_splits)
  next
    assume "e = 3"
    with nr r n md' show ?thesis
      by (auto simp: Let_def DAYS_BEFORE_MONTH_def DAYS_IN_MONTH_def split: if_splits)
  next
    assume "e = 4"
    with nr r n md' show ?thesis
      by (auto simp: Let_def DAYS_BEFORE_MONTH_def DAYS_IN_MONTH_def split: if_splits)
  next
    assume "e = 5"
    with nr r n md' show ?thesis
      by (auto simp: Let_def DAYS_BEFORE_MONTH_def DAYS_IN_MONTH_def split: if_splits)
  next
    assume "e = 6"
    with nr r n md' show ?thesis
      by (auto simp: Let_def DAYS_BEFORE_MONTH_def DAYS_IN_MONTH_def split: if_splits)
  next
    assume "e = 7"
    with nr r n md' show ?thesis
      by (auto simp: Let_def DAYS_BEFORE_MONTH_def DAYS_IN_MONTH_def split: if_splits)
  next
    assume "e = 8"
    with nr r n md' show ?thesis
      by (auto simp: Let_def DAYS_BEFORE_MONTH_def DAYS_IN_MONTH_def split: if_splits)
  next
    assume "e = 9"
    with nr r n md' show ?thesis
      by (auto simp: Let_def DAYS_BEFORE_MONTH_def DAYS_IN_MONTH_def split: if_splits)
  next
    assume "e = 10"
    with nr r n md' show ?thesis
      by (auto simp: Let_def DAYS_BEFORE_MONTH_def DAYS_IN_MONTH_def split: if_splits)
  next
    assume "e = 11"
    with nr r n md' show ?thesis
      by (auto simp: Let_def DAYS_BEFORE_MONTH_def DAYS_IN_MONTH_def split: if_splits)
  next
    assume "e = 12"
    with nr r n md' show ?thesis
      by (auto simp: Let_def DAYS_BEFORE_MONTH_def DAYS_IN_MONTH_def split: if_splits)
  qed
qed

lemma dby_decomp:
  assumes "0 \<le> b" "b \<le> 3" "0 \<le> c" "c \<le> 24" "0 \<le> e" "e \<le> 3"
  shows "days_before_year (400 * a + 100 * b + 4 * c + e + 1) =
         146097 * a + 36524 * b + 1461 * c + 365 * e"
proof -
  define t where "t = 400 * a + 100 * b + 4 * c + e"
  have t1: "400 * a + 100 * b + 4 * c + e + 1 - 1 = t" by (simp add: t_def)
  have d4: "t div 4 = 100 * a + 25 * b + c"
    by (rule int_div_pos_eq [where r = e]) (use assms in \<open>simp_all add: t_def\<close>)
  have d100: "t div 100 = 4 * a + b"
    by (rule int_div_pos_eq [where r = "4 * c + e"]) (use assms in \<open>simp_all add: t_def\<close>)
  have d400: "t div 400 = a"
    by (rule int_div_pos_eq [where r = "100 * b + 4 * c + e"])
      (use assms in \<open>simp_all add: t_def\<close>)
  have "days_before_year (400 * a + 100 * b + 4 * c + e + 1) =
        t * 365 + t div 4 - t div 100 + t div 400"
    unfolding days_before_year_def Let_def t1 by (rule refl)
  also have "\<dots> = t * 365 + (100 * a + 25 * b + c) - (4 * a + b) + a"
    unfolding d4 d100 d400 by (rule refl)
  also have "\<dots> = 146097 * a + 36524 * b + 1461 * c + 365 * e"
    by (simp add: t_def)
  finally show ?thesis .
qed

lemma is_leap_decomp:
  assumes "0 \<le> b" "b \<le> 3" "0 \<le> c" "c \<le> 24" "0 \<le> e" "e \<le> 3"
  shows "is_leap (400 * a + 100 * b + 4 * c + e + 1) \<longleftrightarrow> (e = 3 \<and> (c \<noteq> 24 \<or> b = 3))"
proof -
  define Y where "Y = 400 * a + 100 * b + 4 * c + e + 1"
  define c4 where "c4 \<longleftrightarrow> Y mod 4 = 0"
  define c100 where "c100 \<longleftrightarrow> Y mod 100 = 0"
  define c400 where "c400 \<longleftrightarrow> Y mod 400 = 0"
  have l: "is_leap Y = (c4 \<and> (\<not> c100 \<or> c400))"
    unfolding is_leap_def c4_def c100_def c400_def by (rule refl)
  have m4: "Y mod 4 = (if e = 3 then 0 else e + 1)"
  proof (cases "e = 3")
    case True
    have "Y mod 4 = 0"
      by (rule int_mod_pos_eq [where q = "100 * a + 25 * b + c + 1"])
        (use True in \<open>simp_all add: Y_def\<close>)
    with True show ?thesis by simp
  next
    case False
    have "Y mod 4 = e + 1"
      by (rule int_mod_pos_eq [where q = "100 * a + 25 * b + c"])
        (use False assms in \<open>simp_all add: Y_def\<close>)
    with False show ?thesis by simp
  qed
  have k4: "c4 \<longleftrightarrow> e = 3" unfolding c4_def m4 using assms by simp
  have k100: "c100 \<longleftrightarrow> c = 24" if "e = 3"
  proof (cases "c = 24")
    case True
    have "Y mod 100 = 0"
      by (rule int_mod_pos_eq [where q = "4 * a + b + 1"])
        (use True that in \<open>simp_all add: Y_def\<close>)
    with True show ?thesis by (simp add: c100_def)
  next
    case False
    have "Y mod 100 = 4 * c + 4"
      by (rule int_mod_pos_eq [where q = "4 * a + b"])
        (use False that assms in \<open>simp_all add: Y_def\<close>)
    with False assms show ?thesis by (simp add: c100_def)
  qed
  have k400: "c400 \<longleftrightarrow> b = 3" if "e = 3" "c = 24"
  proof (cases "b = 3")
    case True
    have "Y mod 400 = 0"
      by (rule int_mod_pos_eq [where q = "a + 1"])
        (use True that in \<open>simp_all add: Y_def\<close>)
    with True show ?thesis by (simp add: c400_def)
  next
    case False
    have "Y mod 400 = 100 * b + 100"
      by (rule int_mod_pos_eq [where q = "a"])
        (use False that assms in \<open>simp_all add: Y_def\<close>)
    with False assms show ?thesis by (simp add: c400_def)
  qed
  show ?thesis
    unfolding Y_def [symmetric] l using k4 k100 k400 by blast
qed

lemma ord2ymd_correct:
  assumes "ord2ymd n = (y, m, d)"
  shows "ymd2ord y m d = n \<and> 1 \<le> m \<and> m \<le> 12 \<and> 1 \<le> d \<and> d \<le> days_in_month y m"
proof -
  define a where "a = (n - 1) div 146097"
  define r1 where "r1 = (n - 1) mod 146097"
  define b where "b = r1 div 36524"
  define r2 where "r2 = r1 mod 36524"
  define c where "c = r2 div 1461"
  define r3 where "r3 = r2 mod 1461"
  define e where "e = r3 div 365"
  define r4 where "r4 = r3 mod 365"
  define Y where "Y = a * 400 + 1 + b * 100 + c * 4 + e"
  have u: "ord2ymd n =
      (if e = 4 \<or> b = 4 then (Y - 1, 12, 31)
       else let leapyear = (e = 3 \<and> (c \<noteq> 24 \<or> b = 3))
            in case month_day_of leapyear r4 of (m, d) \<Rightarrow> (Y, m, d))"
    unfolding ord2ymd_def Let_def Y_def r4_def e_def r3_def c_def r2_def b_def r1_def a_def
    by (rule refl)
  have n: "n - 1 = 146097 * a + r1"
    unfolding a_def r1_def by (rule mult_div_mod_eq [symmetric])
  have e1: "r1 = 36524 * b + r2"
    unfolding b_def r2_def by (rule mult_div_mod_eq [symmetric])
  have e2: "r2 = 1461 * c + r3"
    unfolding c_def r3_def by (rule mult_div_mod_eq [symmetric])
  have e3: "r3 = 365 * e + r4"
    unfolding e_def r4_def by (rule mult_div_mod_eq [symmetric])
  have b1: "0 \<le> r1" "r1 < 146097" unfolding r1_def by simp_all
  have b2: "0 \<le> r2" "r2 < 36524" unfolding r2_def by simp_all
  have b3: "0 \<le> r3" "r3 < 1461" unfolding r3_def by simp_all
  have b4: "0 \<le> r4" "r4 < 365" unfolding r4_def by simp_all
  have bb: "0 \<le> b" "b \<le> 4" using e1 b1 b2 by linarith+
  have bc: "0 \<le> c" "c \<le> 24" using e2 b2 b3 by linarith+
  have be: "0 \<le> e" "e \<le> 4" using e3 b3 b4 by linarith+
  have Y: "Y = 400 * a + 100 * b + 4 * c + e + 1" by (simp add: Y_def)
  have n': "n = 146097 * a + 36524 * b + 1461 * c + 365 * e + r4 + 1"
    using n e1 e2 e3 by linarith
  show ?thesis
  proof (cases "b = 4")
    case True
    with e1 b1 b2 have "r2 = 0" by linarith
    with e2 b3 bc have "c = 0" "r3 = 0" by linarith+
    with e3 b4 be have "e = 0" "r4 = 0" by linarith+
    have yy: "Y - 1 = 400 * a + 100 * 3 + 4 * 24 + 3 + 1"
      using True \<open>c = 0\<close> \<open>e = 0\<close> by (simp add: Y)
    have dy: "days_before_year (Y - 1) = 146097 * a + 36524 * 3 + 1461 * 24 + 365 * 3"
      unfolding yy by (rule dby_decomp) simp_all
    have ly: "is_leap (Y - 1)"
      unfolding yy using is_leap_decomp [of 3 24 3 a] by simp
    have r: "(y, m, d) = (Y - 1, 12, 31)" using assms u True by simp
    have "ymd2ord (Y - 1) 12 31 = n"
      unfolding ymd2ord_def dy n' using ly True \<open>c = 0\<close> \<open>e = 0\<close> \<open>r4 = 0\<close>
      by (simp add: days_before_month_def DAYS_BEFORE_MONTH_def)
    moreover have "days_in_month (Y - 1) 12 = 31"
      by (simp add: days_in_month_def DAYS_IN_MONTH_def)
    ultimately show ?thesis using r by simp
  next
    case False
    with bb have b3': "b \<le> 3" by simp
    show ?thesis
    proof (cases "e = 4")
      case True
      with e3 b3 b4 have "r4 = 0" by linarith
      have "c \<le> 23" using e2 e3 b2 True b4 by linarith
      then have c24: "c \<le> 24" "c \<noteq> 24" by simp_all
      have yy: "Y - 1 = 400 * a + 100 * b + 4 * c + 3 + 1"
        using True by (simp add: Y)
      have dy: "days_before_year (Y - 1) = 146097 * a + 36524 * b + 1461 * c + 365 * 3"
        unfolding yy by (rule dby_decomp) (use bb b3' bc c24 in simp_all)
      have ly: "is_leap (Y - 1)"
        unfolding yy using is_leap_decomp [of b c 3 a] bb b3' bc c24 by simp
      have r: "(y, m, d) = (Y - 1, 12, 31)" using assms u True by simp
      have "ymd2ord (Y - 1) 12 31 = n"
        unfolding ymd2ord_def dy n' using ly True \<open>r4 = 0\<close>
        by (simp add: days_before_month_def DAYS_BEFORE_MONTH_def)
      moreover have "days_in_month (Y - 1) 12 = 31"
        by (simp add: days_in_month_def DAYS_IN_MONTH_def)
      ultimately show ?thesis using r by simp
    next
      case e4: False
      with be have e3': "e \<le> 3" by simp
      define L where "L \<longleftrightarrow> (e = 3 \<and> (c \<noteq> 24 \<or> b = 3))"
      obtain m' d' where md: "month_day_of L r4 = (m', d')" by (cases "month_day_of L r4")
      have r: "(y, m, d) = (Y, m', d')"
        using assms u False e4 md by (simp add: L_def Let_def)
      have dy: "days_before_year Y = 146097 * a + 36524 * b + 1461 * c + 365 * e"
        unfolding Y by (rule dby_decomp) (use bb b3' bc be e3' in simp_all)
      have ly: "is_leap Y = L"
        unfolding Y L_def by (rule is_leap_decomp) (use bb b3' bc be e3' in simp_all)
      have "r4 \<le> (if L then 365 else 364)" using b4 by simp
      from month_day_of_correct [OF b4(1) this md]
      have k: "1 \<le> m'" "m' \<le> 12" "1 \<le> d'"
        "d' \<le> (if m' = 2 \<and> L then 29 else DAYS_IN_MONTH ! nat m')"
        "DAYS_BEFORE_MONTH ! nat m' + (if m' > 2 \<and> L then 1 else 0) + d' = r4 + 1"
        by simp_all
      have "ymd2ord Y m' d' = n"
        unfolding ymd2ord_def dy n' days_before_month_def ly using k(5) by simp
      moreover have "d' \<le> days_in_month Y m'"
        unfolding days_in_month_def ly using k(4) by simp
      ultimately show ?thesis using r k by simp
    qed
  qed
qed

lemma dby_1: "days_before_year 1 = 0"
  by (simp add: days_before_year_def)

lemma dby_10000: "days_before_year 10000 = 3652059"
  by (simp add: days_before_year_def)

lemma year_range_of_ordinal:
  assumes v: "1 \<le> m" "m \<le> 12" "1 \<le> d" "d \<le> days_in_month y m"
    and n: "1 \<le> ymd2ord y m d" "ymd2ord y m d \<le> MAXORDINAL"
  shows "1 \<le> y \<and> y \<le> 9999"
proof -
  from ymd2ord_bounds [OF v]
  have b: "days_before_year y < ymd2ord y m d" "ymd2ord y m d \<le> days_before_year (y + 1)"
    by simp_all
  have "1 \<le> y"
  proof (rule ccontr)
    assume "\<not> 1 \<le> y"
    then have "y + 1 \<le> 1" by simp
    from dby_mono [OF this] b(2) n(1) show False by (simp add: dby_1)
  qed
  moreover have "y \<le> 9999"
  proof (rule ccontr)
    assume "\<not> y \<le> 9999"
    then have "10000 \<le> y" by simp
    from dby_mono [OF this] b(1) n(2) show False by (simp add: dby_10000 MAXORDINAL_def)
  qed
  ultimately show ?thesis by simp
qed

lemma fromordinal_ok:
  assumes "1 \<le> n" "n \<le> MAXORDINAL"
  shows "\<exists>dt. fromordinal n = Inr dt \<and> valid_date dt \<and> toordinal dt = n"
proof -
  obtain y m d where o: "ord2ymd n = (y, m, d)" by (cases "ord2ymd n")
  from ord2ymd_correct [OF o]
  have k: "ymd2ord y m d = n" "1 \<le> m" "m \<le> 12" "1 \<le> d" "d \<le> days_in_month y m"
    by simp_all
  from year_range_of_ordinal [OF k(2-5)] k(1) assms have y: "1 \<le> y" "y \<le> 9999" by simp_all
  have "fromordinal n = Inr \<lparr>year = y, month = m, day = d\<rparr>"
    using o k y by (simp add: fromordinal_def date_new_def MINYEAR_def MAXYEAR_def)
  moreover have "valid_date \<lparr>year = y, month = m, day = d\<rparr>"
    using k y by (simp add: valid_date_def valid_ymd_def MINYEAR_def MAXYEAR_def)
  moreover have "toordinal \<lparr>year = y, month = m, day = d\<rparr> = n"
    using k(1) by (simp add: toordinal_def)
  ultimately show ?thesis by blast
qed

lemma toordinal_range:
  assumes "valid_date dt"
  shows "1 \<le> toordinal dt \<and> toordinal dt \<le> MAXORDINAL"
proof -
  from assms have v: "1 \<le> month dt" "month dt \<le> 12" "1 \<le> day dt"
    "day dt \<le> days_in_month (year dt) (month dt)" "1 \<le> year dt" "year dt \<le> 9999"
    by (simp_all add: valid_date_def valid_ymd_def MINYEAR_def MAXYEAR_def)
  from ymd2ord_bounds [OF v(1-4)]
  have b: "days_before_year (year dt) < toordinal dt"
    "toordinal dt \<le> days_before_year (year dt + 1)"
    by (simp_all add: toordinal_def)
  from dby_mono [OF v(5)] have "0 \<le> days_before_year (year dt)" by (simp add: dby_1)
  moreover from v(6) have "year dt + 1 \<le> 10000" by simp
  from dby_mono [OF this] have "days_before_year (year dt + 1) \<le> 3652059"
    by (simp add: dby_10000)
  ultimately show ?thesis using b by (simp add: MAXORDINAL_def)
qed

lemma date_add_days_Inr:
  assumes "date_add_days dt k = Inr dt'"
  shows "valid_date dt' \<and> toordinal dt' = toordinal dt + k"
proof -
  from assms have r: "0 < toordinal dt + k" "toordinal dt + k \<le> MAXORDINAL"
    and f: "fromordinal (toordinal dt + k) = Inr dt'"
    by (simp_all add: date_add_days_def Let_def split: if_splits)
  from r have "1 \<le> toordinal dt + k" by simp
  from fromordinal_ok [OF this r(2)] f show ?thesis by auto
qed

lemma date_add_days_ok:
  assumes "0 < toordinal dt + k" "toordinal dt + k \<le> MAXORDINAL"
  shows "\<exists>dt'. date_add_days dt k = Inr dt'"
proof -
  from assms have "1 \<le> toordinal dt + k" by simp
  from fromordinal_ok [OF this assms(2)] assms show ?thesis
    by (auto simp: date_add_days_def Let_def)
qed

lemma weekday_range: "0 \<le> weekday dt \<and> weekday dt \<le> 6"
proof -
  have "0 \<le> (toordinal dt + 6) mod 7" "(toordinal dt + 6) mod 7 < 7" by simp_all
  then show ?thesis unfolding weekday_def by linarith
qed

lemma date_new_Inr: "date_new y m d = Inr dt \<Longrightarrow> valid_date dt \<and> year dt = y \<and> month dt = m \<and> day dt = d"
  by (auto simp: date_new_def valid_date_def valid_ymd_def split: if_splits)

lemma birthday_this_year_valid:
  "birthday_this_year today b = Inr bty \<Longrightarrow> valid_date bty"
  by (auto simp: birthday_this_year_def datetime_replace_year_def
      split: sum.splits if_splits dest: date_new_Inr)

section \<open>Upcoming birthdays\<close>

subsection \<open>Evaluation rules for concrete inputs\<close>

lemma str_nat_digit: "n < 10 \<Longrightarrow> str_nat n = [48 + n]"
  by (simp add: str_nat.simps)

lemma str_nat_step: "10 \<le> n \<Longrightarrow> str_nat n = str_nat (n div 10) @ [48 + n mod 10]"
  by (subst str_nat.simps) simp

lemmas strftime_eval = strftime_Ymd_def strftime_dmY_def fmt_Y_def fmt_02d_def zfill_def
  str_nat_digit str_nat_step ascii_def

lemmas date_eval = date_add_days_def date_sub_days_def toordinal_def ymd2ord_def
  days_before_year_def days_before_month_def days_in_month_def is_leap_def
  DAYS_BEFORE_MONTH_def DAYS_IN_MONTH_def fromordinal_def ord2ymd_def month_day_of_def
  date_new_def MINYEAR_def MAXYEAR_def MAXORDINAL_def weekday_def Let_def
  valid_date_def valid_ymd_def date_lt_def date_le_def

lemmas strptime_eval = strptime_def format_regex_matches_def match_alts_def d_alts_def
  m_alts_def Y_alts_def match_dot_def btw_def re_digit_def Nd_ranges_def in_range_def
  int_of_str_def digit_value_def ascii_def

lemmas book_eval = get_upcoming_birthdays_def birthday_this_year_def datetime_replace_year_def
  upcoming_step_def record_ok_def record_entries_def

subsection \<open>The window and the weekend shift\<close>

lemma upcoming_loop_Inr_iff:
  "upcoming_loop zp today nw fd rs acc = Inr out \<longleftrightarrow>
     list_all (record_ok today) rs \<and>
     out = acc @ concat (map (record_entries zp today nw fd) rs)"
  by (induction rs arbitrary: acc)
    (auto simp: record_ok_def record_entries_def split: option.splits sum.splits)

lemma first_day_props:
  assumes t: "valid_date today"
    and nw: "date_add_days today 7 = Inr nw"
  shows "\<exists>fd. date_sub_days nw (weekday nw) = Inr fd \<and> valid_date fd \<and>
           toordinal fd = toordinal nw - weekday nw \<and> weekday fd = 0 \<and>
           toordinal today < toordinal fd \<and> toordinal fd \<le> toordinal nw"
proof -
  from date_add_days_Inr [OF nw] have n: "valid_date nw" "toordinal nw = toordinal today + 7"
    by simp_all
  from weekday_range [of nw] have w: "0 \<le> weekday nw" "weekday nw \<le> 6" by simp_all
  from toordinal_range [OF t] toordinal_range [OF n(1)]
  have r: "1 \<le> toordinal today" "toordinal nw \<le> MAXORDINAL" by simp_all
  have "0 < toordinal nw + - weekday nw" "toordinal nw + - weekday nw \<le> MAXORDINAL"
    using n(2) w r by linarith+
  from date_add_days_ok [OF this] obtain fd where fd: "date_add_days nw (- weekday nw) = Inr fd"
    by blast
  from date_add_days_Inr [OF fd]
  have f: "valid_date fd" "toordinal fd = toordinal nw - weekday nw" by simp_all
  define x where "x = toordinal nw + 6"
  have "weekday fd = (x - x mod 7) mod 7"
    unfolding weekday_def f(2) x_def by (simp add: algebra_simps)
  also have "\<dots> = 0" by (simp add: minus_mod_eq_mult_div)
  finally have "weekday fd = 0" .
  with fd f n(2) w show ?thesis by (auto simp: date_sub_days_def)
qed

lemma upcoming_step_entry:
  assumes "e \<in> set (upcoming_step zp today nw fd r bty)"
  shows "date_le today bty \<and> date_le bty nw \<and> entry_name e = name r \<and>
         congratulation_date e = strftime_Ymd zp (if weekday bty \<le> 4 then bty else fd)"
  using assms by (auto simp: upcoming_step_def split: if_splits)

lemma upcoming_step_in_window:
  assumes "date_le today bty" "date_le bty nw"
  shows "upcoming_step zp today nw fd r bty =
         [\<lparr>entry_name = name r,
           congratulation_date = strftime_Ymd zp (if weekday bty \<le> 4 then bty else fd)\<rparr>]"
proof -
  from weekday_range [of bty] have "weekday bty \<le> 4 \<or> weekday bty = 5 \<or> weekday bty = 6"
    by linarith
  with assms show ?thesis by (auto simp: upcoming_step_def)
qed

lemma record_entries_mem:
  assumes "e \<in> set (record_entries zp today nw fd r)"
  shows "\<exists>b bty. birthday r = Some b \<and> birthday_this_year today b = Inr bty \<and>
           e \<in> set (upcoming_step zp today nw fd r bty)"
proof (cases "birthday r")
  case None
  with assms show ?thesis by (simp add: record_entries_def)
next
  case (Some b)
  show ?thesis
  proof (cases "birthday_this_year today b")
    case (Inl x)
    with Some assms show ?thesis by (simp add: record_entries_def)
  next
    case (Inr bty)
    with Some assms show ?thesis by (simp add: record_entries_def)
  qed
qed

text \<open>
  Claim C1: for every address book and every date \<open>today\<close>, every entry that
  \<open>get_upcoming_birthdays\<close> returns carries the rendering of a date \<open>d\<close> with
  \<open>today \<le> d \<le> today + 7 days\<close>, both in the order of dates and counted in days; this
  covers the entries whose date was shifted off a weekend.
\<close>

theorem upcoming_within_window:
  assumes "valid_date today"
    and "get_upcoming_birthdays zp today book = Inr es"
    and "e \<in> set es"
  shows "\<exists>nw d. date_add_days today 7 = Inr nw \<and> valid_date d \<and>
           congratulation_date e = strftime_Ymd zp d \<and>
           date_le today d \<and> date_le d nw \<and>
           toordinal today \<le> toordinal d \<and> toordinal d \<le> toordinal today + 7"
proof -
  from assms(2) obtain nw fd up where
    nw: "date_add_days today 7 = Inr nw" and
    fd: "date_sub_days nw (weekday nw) = Inr fd" and
    up: "upcoming_loop zp today nw fd (map snd book) [] = Inr up" and
    es: "es = sort_key congratulation_date up"
    by (auto simp: get_upcoming_birthdays_def split: sum.splits)
  from date_add_days_Inr [OF nw] have n: "valid_date nw" "toordinal nw = toordinal today + 7"
    by simp_all
  from first_day_props [OF assms(1) nw] fd
  have f: "valid_date fd" "toordinal today < toordinal fd" "toordinal fd \<le> toordinal nw"
    by auto
  from up have "up = concat (map (record_entries zp today nw fd) (map snd book))"
    by (simp add: upcoming_loop_Inr_iff)
  with assms(3) es obtain r where e: "e \<in> set (record_entries zp today nw fd r)"
    by auto
  from record_entries_mem [OF this]
  obtain b bty where b: "birthday_this_year today b = Inr bty"
    and s: "e \<in> set (upcoming_step zp today nw fd r bty)"
    by blast
  from birthday_this_year_valid [OF b] have vb: "valid_date bty" .
  from upcoming_step_entry [OF s]
  have k: "date_le today bty" "date_le bty nw"
    "congratulation_date e = strftime_Ymd zp (if weekday bty \<le> 4 then bty else fd)"
    by simp_all
  define d where "d = (if weekday bty \<le> 4 then bty else fd)"
  have vd: "valid_date d" using vb f(1) by (simp add: d_def)
  have "toordinal today \<le> toordinal bty" "toordinal bty \<le> toordinal nw"
    using k(1,2) by (simp_all add: date_le_iff assms(1) vb n(1))
  with f(2,3) have o: "toordinal today \<le> toordinal d" "toordinal d \<le> toordinal nw"
    by (simp_all add: d_def)
  then have "date_le today d" "date_le d nw"
    by (simp_all add: date_le_iff assms(1) vd n(1))
  with nw vd k(3) o n(2) show ?thesis unfolding d_def [symmetric] by auto
qed

theorem upcoming_within_window_witness:
  "valid_date \<lparr>year = 2024, month = 6, day = 3\<rparr> \<and>
   get_upcoming_birthdays False \<lparr>year = 2024, month = 6, day = 3\<rparr>
     [(ascii ''Bob'',
       \<lparr>name = ascii ''Bob'', phones = [],
        birthday = Some (Birthday \<lparr>date_part = \<lparr>year = 1990, month = 6, day = 8\<rparr>,
                                  hour = 0, minute = 0, second = 0, microsecond = 0\<rparr>)\<rparr>),
      (ascii ''Anna'',
       \<lparr>name = ascii ''Anna'', phones = [],
        birthday = Some (Birthday \<lparr>date_part = \<lparr>year = 1985, month = 6, day = 5\<rparr>,
                                  hour = 0, minute = 0, second = 0, microsecond = 0\<rparr>)\<rparr>)]
   = Inr [\<lparr>entry_name = ascii ''Anna'', congratulation_date = ascii ''2024.06.05''\<rparr>,
          \<lparr>entry_name = ascii ''Bob'', congratulation_date = ascii ''2024.06.10''\<rparr>] \<and>
   (\<exists>nw d. date_add_days \<lparr>year = 2024, month = 6, day = 3\<rparr> 7 = Inr nw \<and> valid_date d \<and>
      ascii ''2024.06.10'' = strftime_Ymd False d \<and>
      date_le \<lparr>year = 2024, month = 6, day = 3\<rparr> d \<and> date_le d nw \<and>
      toordinal \<lparr>year = 2024, month = 6, day = 3\<rparr> \<le> toordinal d \<and>
      toordinal d \<le> toordinal \<lparr>year = 2024, month = 6, day = 3\<rparr> + 7)"
proof -
  let ?today = "\<lparr>year = 2024, month = 6, day = 3\<rparr>"
  let ?book = "[(ascii ''Bob'',
       \<lparr>name = ascii ''Bob'', phones = [],
        birthday = Some (Birthday \<lparr>date_part = \<lparr>year = 1990, month = 6, day = 8\<rparr>,
                                  hour = 0, minute = 0, second = 0, microsecond = 0\<rparr>)\<rparr>),
      (ascii ''Anna'',
       \<lparr>name = ascii ''Anna'', phones = [],
        birthday = Some (Birthday \<lparr>date_part = \<lparr>year = 1985, month = 6, day = 5\<rparr>,
                                  hour = 0, minute = 0, second = 0, microsecond = 0\<rparr>)\<rparr>)]"
  let ?bob = "\<lparr>entry_name = ascii ''Bob'', congratulation_date = ascii ''2024.06.10''\<rparr>"
  let ?es = "[\<lparr>entry_name = ascii ''Anna'', congratulation_date = ascii ''2024.06.05''\<rparr>, ?bob]"
  have h1: "valid_date ?today" by (simp add: date_eval)
  have h2: "get_upcoming_birthdays False ?today ?book = Inr ?es"
    by (simp add: book_eval date_eval strftime_eval)
  have h3: "?bob \<in> set ?es" by simp
  from upcoming_within_window [OF h1 h2 h3] h1 h2 show ?thesis by simp
qed

lemma date_new_Inr_iff:
  "date_new y m d = Inr dt \<longleftrightarrow> valid_ymd y m d \<and> dt = \<lparr>year = y, month = m, day = d\<rparr>"
  by (auto simp: date_new_def valid_ymd_def)

lemma birthday_this_year_Inr_iff:
  "birthday_this_year today b = Inr B \<longleftrightarrow>
     valid_ymd (year today) (month (date_part (birthday_value b)))
       (day (date_part (birthday_value b))) \<and>
     valid_date (next_occurrence today (date_part (birthday_value b))) \<and>
     B = next_occurrence today (date_part (birthday_value b))"
proof -
  define bd where "bd = date_part (birthday_value b)"
  have r: "datetime_replace_year (birthday_value b) y = Inr v \<longleftrightarrow>
           valid_ymd y (month bd) (day bd) \<and>
           v = (birthday_value b)\<lparr>date_part := \<lparr>year = y, month = month bd, day = day bd\<rparr>\<rparr>"
    for y v
  proof (cases "date_new y (month bd) (day bd)")
    case (Inl e)
    have "\<not> valid_ymd y (month bd) (day bd)"
    proof
      assume "valid_ymd y (month bd) (day bd)"
      then have "date_new y (month bd) (day bd) = Inr \<lparr>year = y, month = month bd, day = day bd\<rparr>"
        by (simp add: date_new_Inr_iff)
      with Inl show False by simp
    qed
    with Inl show ?thesis by (simp add: datetime_replace_year_def bd_def [symmetric])
  next
    case (Inr dt)
    then have "valid_ymd y (month bd) (day bd)" "dt = \<lparr>year = y, month = month bd, day = day bd\<rparr>"
      by (simp_all add: date_new_Inr_iff)
    with Inr show ?thesis by (auto simp: datetime_replace_year_def bd_def [symmetric])
  qed
  have l: "date_lt \<lparr>year = year today, month = month bd, day = day bd\<rparr> today =
           passed_this_year today bd"
    by (simp add: date_lt_def passed_this_year_def)
  show ?thesis
  proof (cases "datetime_replace_year (birthday_value b) (year today)")
    case (Inl e)
    then have "\<not> valid_ymd (year today) (month bd) (day bd)"
      using r [of "year today"] by auto
    with Inl show ?thesis by (simp add: birthday_this_year_def bd_def)
  next
    case (Inr v)
    with r [of "year today" v] have v: "valid_ymd (year today) (month bd) (day bd)"
      "v = (birthday_value b)\<lparr>date_part := \<lparr>year = year today, month = month bd, day = day bd\<rparr>\<rparr>"
      by simp_all
    show ?thesis
    proof (cases "passed_this_year today bd")
      case False
      with Inr v l show ?thesis
        by (auto simp: birthday_this_year_def bd_def [symmetric] next_occurrence_def
            valid_date_def)
    next
      case True
      show ?thesis
      proof (cases "datetime_replace_year (birthday_value b) (year today + 1)")
        case (Inl e)
        then have "\<not> valid_ymd (year today + 1) (month bd) (day bd)"
          using r [of "year today + 1"] by auto
        with Inl Inr v l True show ?thesis
          by (simp add: birthday_this_year_def bd_def [symmetric] next_occurrence_def
              valid_date_def)
      next
        case w: (Inr v')
        with r [of "year today + 1" v'] have "valid_ymd (year today + 1) (month bd) (day bd)"
          "v' = (birthday_value b)\<lparr>date_part := \<lparr>year = year today + 1, month = month bd, day = day bd\<rparr>\<rparr>"
          by simp_all
        with w Inr v l True show ?thesis
          by (auto simp: birthday_this_year_def bd_def [symmetric] next_occurrence_def
              valid_date_def)
      qed
    qed
  qed
qed


text \<open>
  Where the call returns, the weekend rule holds. Let the window end \<open>today + 7 days\<close>
  exist and let the loop body run through for every record of the book. For a record
  with a birthday whose occurrence \<open>B\<close> of this year or the next lies in the window, the
  result has an entry with the record's name and the date \<open>B\<close> if \<open>B\<close> is a Monday to
  Friday, and otherwise the date \<open>fd\<close>, which is the window end moved back to its Monday: a
  Monday, not after the window end and at most 6 days before it.
\<close>

theorem weekend_shift_when_returns:
  assumes t: "valid_date today"
    and nw: "date_add_days today 7 = Inr nw"
    and ok: "list_all (record_ok today) (map snd book)"
    and r: "(k, r) \<in> set book"
    and b: "birthday r = Some b"
    and B: "B = next_occurrence today (date_part (birthday_value b))"
    and w: "date_le today B" "date_le B nw"
  shows "\<exists>es fd. get_upcoming_birthdays zp today book = Inr es \<and>
           date_sub_days nw (weekday nw) = Inr fd \<and>
           weekday fd = 0 \<and> date_le fd nw \<and> toordinal nw - 6 \<le> toordinal fd \<and>
           \<lparr>entry_name = name r,
            congratulation_date = strftime_Ymd zp (if weekday B \<le> 4 then B else fd)\<rparr> \<in> set es"
proof -
  from r ok have "record_ok today r" by (auto simp: list_all_iff)
  with b obtain B' where "birthday_this_year today b = Inr B'"
    by (cases "birthday_this_year today b") (auto simp: record_ok_def)
  with B have bty: "birthday_this_year today b = Inr B"
    by (simp add: birthday_this_year_Inr_iff)
  from date_add_days_Inr [OF nw] have n: "valid_date nw" by simp
  from first_day_props [OF t nw] obtain fd where
    fd: "date_sub_days nw (weekday nw) = Inr fd" and
    f: "valid_date fd" "toordinal fd = toordinal nw - weekday nw" "weekday fd = 0"
       "toordinal fd \<le> toordinal nw"
    by blast
  define up where "up = concat (map (record_entries zp today nw fd) (map snd book))"
  have l: "upcoming_loop zp today nw fd (map snd book) [] = Inr up"
    using ok by (simp add: upcoming_loop_Inr_iff up_def)
  have g: "get_upcoming_birthdays zp today book = Inr (sort_key congratulation_date up)"
    by (simp add: get_upcoming_birthdays_def nw fd l)
  define ent where "ent = \<lparr>entry_name = name r,
      congratulation_date = strftime_Ymd zp (if weekday B \<le> 4 then B else fd)\<rparr>"
  have "record_entries zp today nw fd r = [ent]"
    using b bty upcoming_step_in_window [OF w] by (simp add: record_entries_def ent_def)
  then have "ent \<in> set (record_entries zp today nw fd (snd (k, r)))" by simp
  with r have "ent \<in> set up" unfolding up_def by (auto intro!: bexI [of _ "(k, r)"])
  then have m: "\<lparr>entry_name = name r,
      congratulation_date = strftime_Ymd zp (if weekday B \<le> 4 then B else fd)\<rparr>
      \<in> set (sort_key congratulation_date up)"
    by (simp add: ent_def)
  have "date_le fd nw" using f(4) by (simp add: date_le_iff f(1) n)
  moreover have "toordinal nw - 6 \<le> toordinal fd"
    using f(2) weekday_range [of nw] by linarith
  ultimately show ?thesis using g fd f(3) m by blast
qed

text \<open>Conversely, every entry of the result comes from a record of the book by that rule.\<close>

lemma upcoming_entries_from_book:
  assumes g: "get_upcoming_birthdays zp today book = Inr es" and e: "e \<in> set es"
  shows "\<exists>nw fd k r b. date_add_days today 7 = Inr nw \<and>
           date_sub_days nw (weekday nw) = Inr fd \<and> (k, r) \<in> set book \<and>
           birthday r = Some b \<and>
           date_le today (next_occurrence today (date_part (birthday_value b))) \<and>
           date_le (next_occurrence today (date_part (birthday_value b))) nw \<and>
           e = \<lparr>entry_name = name r,
                congratulation_date =
                  strftime_Ymd zp
                    (if weekday (next_occurrence today (date_part (birthday_value b))) \<le> 4
                     then next_occurrence today (date_part (birthday_value b)) else fd)\<rparr>"
proof -
  from g obtain nw fd up where
    nw: "date_add_days today 7 = Inr nw" and
    fd: "date_sub_days nw (weekday nw) = Inr fd" and
    up: "upcoming_loop zp today nw fd (map snd book) [] = Inr up" and
    es: "es = sort_key congratulation_date up"
    by (auto simp: get_upcoming_birthdays_def split: sum.splits)
  from up have "up = concat (map (record_entries zp today nw fd) (map snd book))"
    by (simp add: upcoming_loop_Inr_iff)
  with e es obtain k r where kr: "(k, r) \<in> set book"
    and m: "e \<in> set (record_entries zp today nw fd r)"
    by auto
  from record_entries_mem [OF m]
  obtain b bty where b: "birthday r = Some b" "birthday_this_year today b = Inr bty"
    and s: "e \<in> set (upcoming_step zp today nw fd r bty)"
    by blast
  from b(2) have bty: "bty = next_occurrence today (date_part (birthday_value b))"
    by (simp add: birthday_this_year_Inr_iff)
  from upcoming_step_entry [OF s]
  have k: "date_le today bty" "date_le bty nw" "entry_name e = name r"
    "congratulation_date e = strftime_Ymd zp (if weekday bty \<le> 4 then bty else fd)"
    by simp_all
  then have "e = \<lparr>entry_name = name r,
      congratulation_date = strftime_Ymd zp (if weekday bty \<le> 4 then bty else fd)\<rparr>"
    by (cases e) simp
  with nw fd kr b(1) k(1,2) show ?thesis unfolding bty by blast
qed


lemmas occurrence_eval = next_occurrence_def passed_this_year_def

text \<open>
  The scenario of the specification, \<open>today = 2024-06-03\<close> and Bob's birthday \<open>08.06\<close> (a
  Saturday), gives \<open>2024.06.10\<close>; and a birthday on January 1, seen from December 30,
  is found in the next year.
\<close>

theorem weekend_shift_bob_scenario:
  "\<forall>zp. \<exists>es.
     get_upcoming_birthdays zp \<lparr>year = 2024, month = 6, day = 3\<rparr>
       (add_record (snd (add_birthday (ascii ''08.06.1990'') (Record_init (ascii ''Bob'')))) [])
       = Inr es \<and>
     \<lparr>entry_name = ascii ''Bob'', congratulation_date = ascii ''2024.06.10''\<rparr> \<in> set es"
proof
  fix zp
  let ?today = "\<lparr>year = 2024, month = 6, day = 3\<rparr>"
  let ?nw = "\<lparr>year = 2024, month = 6, day = 10\<rparr>"
  let ?B = "\<lparr>year = 2024, month = 6, day = 8\<rparr>"
  let ?b = "Birthday \<lparr>date_part = \<lparr>year = 1990, month = 6, day = 8\<rparr>,
                       hour = 0, minute = 0, second = 0, microsecond = 0\<rparr>"
  let ?r = "\<lparr>name = ascii ''Bob'', phones = [], birthday = Some ?b\<rparr>"
  let ?book = "[(ascii ''Bob'', ?r)]"
  have bk: "add_record (snd (add_birthday (ascii ''08.06.1990'') (Record_init (ascii ''Bob'')))) []
            = ?book"
    by (simp add: add_record_def add_birthday_def Birthday_init_def Record_init_def
        strptime_eval date_eval)
  have h1: "valid_date ?today" by (simp add: date_eval)
  have h2: "date_add_days ?today 7 = Inr ?nw" by (simp add: date_eval)
  have h3: "list_all (record_ok ?today) (map snd ?book)" by (simp add: book_eval date_eval)
  have h4: "(ascii ''Bob'', ?r) \<in> set ?book" by simp
  have h5: "birthday ?r = Some ?b" by simp
  have h6: "?B = next_occurrence ?today (date_part (birthday_value ?b))"
    by (simp add: occurrence_eval)
  have h7: "date_le ?today ?B" "date_le ?B ?nw" by (simp_all add: date_eval)
  have f: "date_sub_days ?nw (weekday ?nw) = Inr ?nw" by (simp add: date_eval)
  have w: "weekday ?B = 5" by (simp add: date_eval)
  have s: "strftime_Ymd zp ?nw = ascii ''2024.06.10''" by (simp add: strftime_eval)
  from weekend_shift_when_returns [OF h1 h2 h3 h4 h5 h6 h7, of zp] f w s
  show "\<exists>es.
     get_upcoming_birthdays zp ?today
       (add_record (snd (add_birthday (ascii ''08.06.1990'') (Record_init (ascii ''Bob'')))) [])
       = Inr es \<and>
     \<lparr>entry_name = ascii ''Bob'', congratulation_date = ascii ''2024.06.10''\<rparr> \<in> set es"
    unfolding bk by auto
qed

theorem rollover_new_year_scenario:
  "\<forall>zp. \<exists>es.
     get_upcoming_birthdays zp \<lparr>year = 2024, month = 12, day = 30\<rparr>
       (add_record (snd (add_birthday (ascii ''01.01.1990'') (Record_init (ascii ''Eve'')))) [])
       = Inr es \<and>
     \<lparr>entry_name = ascii ''Eve'', congratulation_date = ascii ''2025.01.01''\<rparr> \<in> set es"
proof
  fix zp
  let ?today = "\<lparr>year = 2024, month = 12, day = 30\<rparr>"
  let ?nw = "\<lparr>year = 2025, month = 1, day = 6\<rparr>"
  let ?B = "\<lparr>year = 2025, month = 1, day = 1\<rparr>"
  let ?b = "Birthday \<lparr>date_part = \<lparr>year = 1990, month = 1, day = 1\<rparr>,
                       hour = 0, minute = 0, second = 0, microsecond = 0\<rparr>"
  let ?r = "\<lparr>name = ascii ''Eve'', phones = [], birthday = Some ?b\<rparr>"
  let ?book = "[(ascii ''Eve'', ?r)]"
  have bk: "add_record (snd (add_birthday (ascii ''01.01.1990'') (Record_init (ascii ''Eve'')))) []
            = ?book"
    by (simp add: add_record_def add_birthday_def Birthday_init_def Record_init_def
        strptime_eval date_eval)
  have h1: "valid_date ?today" by (simp add: date_eval)
  have h2: "date_add_days ?today 7 = Inr ?nw" by (simp add: date_eval)
  have h3: "list_all (record_ok ?today) (map snd ?book)" by (simp add: book_eval date_eval)
  have h4: "(ascii ''Eve'', ?r) \<in> set ?book" by simp
  have h5: "birthday ?r = Some ?b" by simp
  have h6: "?B = next_occurrence ?today (date_part (birthday_value ?b))"
    by (simp add: occurrence_eval)
  have h7: "date_le ?today ?B" "date_le ?B ?nw" by (simp_all add: date_eval)
  have w: "weekday ?B = 2" by (simp add: date_eval)
  have s: "strftime_Ymd zp ?B = ascii ''2025.01.01''" by (simp add: strftime_eval)
  from weekend_shift_when_returns [OF h1 h2 h3 h4 h5 h6 h7, of zp] w s
  show "\<exists>es.
     get_upcoming_birthdays zp ?today
       (add_record (snd (add_birthday (ascii ''01.01.1990'') (Record_init (ascii ''Eve'')))) [])
       = Inr es \<and>
     \<lparr>entry_name = ascii ''Eve'', congratulation_date = ascii ''2025.01.01''\<rparr> \<in> set es"
    unfolding bk by auto
qed

text \<open>
  Claim C2 (the code breaks it): every record whose occurrence \<open>B\<close> lies in the window
  should be reported, with \<open>B\<close> on a weekday and the Monday of the window end's week
  otherwise. On 2023-06-05, a Monday, Anna's birthday \<open>05.06\<close> occurs that very day, inside
  the window that ends on 2023-06-12. With a second record in the book whose birthday
  is February 29, \<open>replace(year=2023)\<close> raises \<open>ValueError\<close> for that record, the call
  raises, and Anna is not reported. It is the missed case behind claim C9.
\<close>

theorem upcoming_feb29_value_error:
  "next_occurrence \<lparr>year = 2023, month = 6, day = 5\<rparr> \<lparr>year = 1990, month = 6, day = 5\<rparr>
     = \<lparr>year = 2023, month = 6, day = 5\<rparr> \<and>
   weekday \<lparr>year = 2023, month = 6, day = 5\<rparr> = 0 \<and>
   date_add_days \<lparr>year = 2023, month = 6, day = 5\<rparr> 7 = Inr \<lparr>year = 2023, month = 6, day = 12\<rparr> \<and>
   (\<forall>zp. get_upcoming_birthdays zp \<lparr>year = 2023, month = 6, day = 5\<rparr>
      (add_record (snd (add_birthday (ascii ''29.02.2000'') (Record_init (ascii ''Leap''))))
        (add_record (snd (add_birthday (ascii ''05.06.1990'') (Record_init (ascii ''Anna''))))
          []))
      = Inl ValueError)"
proof -
  let ?book = "[(ascii ''Anna'',
       \<lparr>name = ascii ''Anna'', phones = [],
        birthday = Some (Birthday \<lparr>date_part = \<lparr>year = 1990, month = 6, day = 5\<rparr>,
                                  hour = 0, minute = 0, second = 0, microsecond = 0\<rparr>)\<rparr>),
      (ascii ''Leap'',
       \<lparr>name = ascii ''Leap'', phones = [],
        birthday = Some (Birthday \<lparr>date_part = \<lparr>year = 2000, month = 2, day = 29\<rparr>,
                                  hour = 0, minute = 0, second = 0, microsecond = 0\<rparr>)\<rparr>)]"
  have bk: "add_record (snd (add_birthday (ascii ''29.02.2000'') (Record_init (ascii ''Leap''))))
        (add_record (snd (add_birthday (ascii ''05.06.1990'') (Record_init (ascii ''Anna''))))
          []) = ?book"
    by (simp add: add_record_def add_birthday_def Birthday_init_def Record_init_def
        strptime_eval date_eval)
  have 1: "next_occurrence \<lparr>year = 2023, month = 6, day = 5\<rparr> \<lparr>year = 1990, month = 6, day = 5\<rparr>
     = \<lparr>year = 2023, month = 6, day = 5\<rparr>"
    by (simp add: occurrence_eval)
  have 2: "weekday \<lparr>year = 2023, month = 6, day = 5\<rparr> = 0" by (simp add: date_eval)
  have 3: "date_add_days \<lparr>year = 2023, month = 6, day = 5\<rparr> 7 =
           Inr \<lparr>year = 2023, month = 6, day = 12\<rparr>"
    by (simp add: date_eval)
  have 4: "get_upcoming_birthdays zp \<lparr>year = 2023, month = 6, day = 5\<rparr> ?book = Inl ValueError"
    for zp
    by (simp add: book_eval date_eval)
  from 1 2 3 4 show ?thesis unfolding bk by simp
qed

section \<open>Parsing and printing birthdays\<close>

subsection \<open>What the format's regular expression matches\<close>

lemma match_alts_mem:
  "(d, r) \<in> set (match_alts alts s) \<longleftrightarrow>
     s = d @ r \<and> (\<exists>(n, p) \<in> set alts. length d = n \<and> p d)"
proof
  assume "(d, r) \<in> set (match_alts alts s)"
  then obtain n p where np: "(n, p) \<in> set alts" "n \<le> length s" "p (take n s)"
    "d = take n s" "r = drop n s"
    by (auto simp: match_alts_def split: if_splits)
  then have "length d = n" by simp
  with np show "s = d @ r \<and> (\<exists>(n, p) \<in> set alts. length d = n \<and> p d)" by auto
next
  assume a: "s = d @ r \<and> (\<exists>(n, p) \<in> set alts. length d = n \<and> p d)"
  then obtain n p where np: "(n, p) \<in> set alts" "length d = n" "p d" by auto
  with a have "n \<le> length s" "take n s = d" "drop n s = r" by simp_all
  with np show "(d, r) \<in> set (match_alts alts s)"
    by (auto simp: match_alts_def intro!: bexI [of _ "(n, p)"])
qed

lemma day_field_alts: "(\<exists>(n, p) \<in> set d_alts. length f = n \<and> p f) \<longleftrightarrow> day_field f"
proof (cases f)
  case Nil
  then show ?thesis by (simp add: d_alts_def day_field_def)
next
  case (Cons a f1)
  show ?thesis
  proof (cases f1)
    case Nil
    with Cons show ?thesis by (simp add: d_alts_def day_field_def)
  next
    case (Cons b f2)
    show ?thesis
    proof (cases f2)
      case Nil
      with \<open>f = a # f1\<close> \<open>f1 = b # f2\<close> show ?thesis
        by (auto simp: d_alts_def day_field_def)
    next
      case (Cons c f3)
      with \<open>f = a # f1\<close> \<open>f1 = b # f2\<close> show ?thesis
        by (simp add: d_alts_def day_field_def)
    qed
  qed
qed

lemma month_field_alts: "(\<exists>(n, p) \<in> set m_alts. length f = n \<and> p f) \<longleftrightarrow> month_field f"
proof (cases f)
  case Nil
  then show ?thesis by (simp add: m_alts_def month_field_def)
next
  case (Cons a f1)
  show ?thesis
  proof (cases f1)
    case Nil
    with Cons show ?thesis by (simp add: m_alts_def month_field_def)
  next
    case (Cons b f2)
    show ?thesis
    proof (cases f2)
      case Nil
      with \<open>f = a # f1\<close> \<open>f1 = b # f2\<close> show ?thesis
        by (auto simp: m_alts_def month_field_def)
    next
      case (Cons c f3)
      with \<open>f = a # f1\<close> \<open>f1 = b # f2\<close> show ?thesis
        by (simp add: m_alts_def month_field_def)
    qed
  qed
qed

lemma year_field_alts: "(\<exists>(n, p) \<in> set Y_alts. length f = n \<and> p f) \<longleftrightarrow> year_field f"
proof -
  have "list_all re_digit f \<longleftrightarrow> re_digit (f ! 0) \<and> re_digit (f ! 1) \<and> re_digit (f ! 2) \<and> re_digit (f ! 3)"
    if "length f = 4"
  proof -
    from that obtain a b c d where "f = [a, b, c, d]"
      by (cases f; cases "tl f"; cases "tl (tl f)"; cases "tl (tl (tl f))") auto
    then show ?thesis by simp
  qed
  then show ?thesis by (auto simp: Y_alts_def year_field_def)
qed

lemma match_dot_mem: "r2 \<in> set (match_dot r1) \<longleftrightarrow> r1 = 46 # r2"
  by (auto simp: match_dot_def split: list.splits)

lemma format_regex_matches_mem:
  "(d, m, y, rest) \<in> set (format_regex_matches s) \<longleftrightarrow>
     s = d @ [46] @ m @ [46] @ y @ rest \<and> day_field d \<and> month_field m \<and> year_field y"
proof -
  have "(d, m, y, rest) \<in> set (format_regex_matches s) \<longleftrightarrow>
     (\<exists>r1 r2 r3 r4. (d, r1) \<in> set (match_alts d_alts s) \<and> r2 \<in> set (match_dot r1) \<and>
        (m, r3) \<in> set (match_alts m_alts r2) \<and> r4 \<in> set (match_dot r3) \<and>
        (y, rest) \<in> set (match_alts Y_alts r4))"
    unfolding format_regex_matches_def by fastforce
  also have "\<dots> \<longleftrightarrow>
     s = d @ [46] @ m @ [46] @ y @ rest \<and> day_field d \<and> month_field m \<and> year_field y"
    unfolding match_alts_mem match_dot_mem day_field_alts month_field_alts year_field_alts
    by auto
  finally show ?thesis .
qed


lemma split_at_first:
  "x \<notin> set a \<Longrightarrow> x \<notin> set a' \<Longrightarrow> a @ x # t = a' @ x # t' \<Longrightarrow> a = a' \<and> t = t'"
proof (induction a arbitrary: a')
  case Nil
  then show ?case by (cases a') auto
next
  case (Cons c a)
  then show ?case by (cases a') auto
qed

lemma re_digit_not_dot: "\<not> re_digit 46"
  by (simp add: re_digit_def Nd_ranges_def in_range_def)

lemma day_field_no_dot: "day_field f \<Longrightarrow> 46 \<notin> set f"
  using re_digit_not_dot
  by (auto simp: day_field_def btw_def split: list.splits)

lemma month_field_no_dot: "month_field f \<Longrightarrow> 46 \<notin> set f"
  by (auto simp: month_field_def btw_def split: list.splits)

lemma format_regex_matches_unique:
  assumes "(d, m, y, rest) \<in> set (format_regex_matches s)"
    and "(d', m', y', rest') \<in> set (format_regex_matches s)"
  shows "d = d' \<and> m = m' \<and> y = y' \<and> rest = rest'"
proof -
  from assms have a: "s = d @ 46 # (m @ 46 # (y @ rest))" "day_field d" "month_field m"
      "year_field y"
    and b: "s = d' @ 46 # (m' @ 46 # (y' @ rest'))" "day_field d'" "month_field m'"
      "year_field y'"
    by (simp_all add: format_regex_matches_mem)
  from a(1) b(1) have "d @ 46 # (m @ 46 # (y @ rest)) = d' @ 46 # (m' @ 46 # (y' @ rest'))"
    by simp
  from split_at_first [OF day_field_no_dot [OF a(2)] day_field_no_dot [OF b(2)] this]
  have 1: "d = d'" "m @ 46 # (y @ rest) = m' @ 46 # (y' @ rest')" by simp_all
  from split_at_first [OF month_field_no_dot [OF a(3)] month_field_no_dot [OF b(3)] 1(2)]
  have 2: "m = m'" "y @ rest = y' @ rest'" by simp_all
  from a(4) b(4) have "length y = length y'" by (simp add: year_field_def)
  with 2(2) have "y = y'" "rest = rest'" by simp_all
  with 1 2 show ?thesis by simp
qed

lemma date_new_Inl: "date_new y m d = Inl e \<Longrightarrow> e = ValueError"
  by (auto simp: date_new_def split: if_splits)

lemma strptime_Inl: "strptime s = Inl e \<Longrightarrow> e = ValueError"
  by (auto simp: strptime_def split: list.splits if_splits sum.splits dest: date_new_Inl)

lemma strptime_Inr_iff:
  "strptime s = Inr v \<longleftrightarrow>
     (\<exists>d m y dt. s = d @ [46] @ m @ [46] @ y \<and> day_field d \<and> month_field m \<and> year_field y \<and>
        date_new (int_of_str y) (int_of_str m) (int_of_str d) = Inr dt \<and>
        v = \<lparr>date_part = dt, hour = 0, minute = 0, second = 0, microsecond = 0\<rparr>)"
proof
  assume p: "strptime s = Inr v"
  then obtain d m y rest ms where h: "format_regex_matches s = (d, m, y, rest) # ms"
    by (cases "format_regex_matches s") (auto simp: strptime_def)
  then have "(d, m, y, rest) \<in> set (format_regex_matches s)" by simp
  then have f: "s = d @ [46] @ m @ [46] @ y @ rest" "day_field d" "month_field m" "year_field y"
    by (simp_all add: format_regex_matches_mem)
  from p h have r: "rest = []" by (auto simp: strptime_def split: if_splits)
  from p h r obtain dt where "date_new (int_of_str y) (int_of_str m) (int_of_str d) = Inr dt"
    "v = \<lparr>date_part = dt, hour = 0, minute = 0, second = 0, microsecond = 0\<rparr>"
    by (auto simp: strptime_def split: sum.splits)
  with f r show "\<exists>d m y dt. s = d @ [46] @ m @ [46] @ y \<and> day_field d \<and> month_field m \<and>
        year_field y \<and> date_new (int_of_str y) (int_of_str m) (int_of_str d) = Inr dt \<and>
        v = \<lparr>date_part = dt, hour = 0, minute = 0, second = 0, microsecond = 0\<rparr>"
    by auto
next
  assume "\<exists>d m y dt. s = d @ [46] @ m @ [46] @ y \<and> day_field d \<and> month_field m \<and>
        year_field y \<and> date_new (int_of_str y) (int_of_str m) (int_of_str d) = Inr dt \<and>
        v = \<lparr>date_part = dt, hour = 0, minute = 0, second = 0, microsecond = 0\<rparr>"
  then obtain d m y dt where f: "s = d @ [46] @ m @ [46] @ y" "day_field d" "month_field m"
    "year_field y" "date_new (int_of_str y) (int_of_str m) (int_of_str d) = Inr dt"
    "v = \<lparr>date_part = dt, hour = 0, minute = 0, second = 0, microsecond = 0\<rparr>"
    by blast
  then have m: "(d, m, y, []) \<in> set (format_regex_matches s)"
    by (simp add: format_regex_matches_mem)
  then obtain x ms where h: "format_regex_matches s = x # ms"
    by (cases "format_regex_matches s") auto
  obtain d' m' y' rest' where x: "x = (d', m', y', rest')" by (cases x) auto
  with h have "(d', m', y', rest') \<in> set (format_regex_matches s)" by simp
  from format_regex_matches_unique [OF this m] x
  have "x = (d, m, y, [])" by simp
  with h f show "strptime s = Inr v" by (simp add: strptime_def)
qed

subsection \<open>Decimal digits\<close>

lemma digit_value_ascii: "ascii_digit c \<Longrightarrow> digit_value c = int c - 48"
  by (auto simp: digit_value_def Nd_ranges_def in_range_def ascii_digit_def)

lemma int_of_str_ascii_gen:
  "list_all ascii_digit s \<Longrightarrow>
   foldl (\<lambda>acc c. 10 * acc + digit_value c) a s = foldl (\<lambda>acc c. 10 * acc + (int c - 48)) a s"
  by (induction s arbitrary: a) (simp_all add: digit_value_ascii)

lemma int_of_str_ascii: "list_all ascii_digit s \<Longrightarrow> int_of_str s = ascii_num s"
  by (simp add: int_of_str_def ascii_num_def int_of_str_ascii_gen)

lemma ascii_num_snoc: "ascii_num (ds @ [c]) = 10 * ascii_num ds + (int c - 48)"
  by (simp add: ascii_num_def)

lemma ascii_num_nonneg: "list_all ascii_digit ds \<Longrightarrow> 0 \<le> ascii_num ds"
  by (induction ds rule: rev_induct) (auto simp: ascii_num_snoc ascii_digit_def ascii_num_def)

lemma ascii_num_zero:
  "list_all ascii_digit ds \<Longrightarrow> ascii_num ds = 0 \<Longrightarrow> ds = replicate (length ds) 48"
proof (induction ds rule: rev_induct)
  case Nil
  then show ?case by simp
next
  case (snoc c ds)
  from snoc.prems(1) have d0: "list_all ascii_digit ds" "ascii_digit c" by simp_all
  then have d: "list_all ascii_digit ds" "48 \<le> c" "c \<le> 57" by (simp_all add: ascii_digit_def)
  from ascii_num_nonneg [OF d(1)] snoc.prems(2) d(2)
  have "ascii_num ds = 0" "c = 48" by (simp_all add: ascii_num_snoc)
  with snoc.IH d(1) have "ds = replicate (length ds) 48" by simp
  then have "ds @ [c] = replicate (length ds) 48 @ [48]" using \<open>c = 48\<close> by simp
  then show ?case by (simp add: replicate_append_same)
qed


lemma str_nat_small: "n < 10 \<Longrightarrow> str_nat n = [48 + n]"
  by (simp add: str_nat.simps)

lemma str_nat_snoc: "0 < a \<Longrightarrow> b < 10 \<Longrightarrow> str_nat (10 * a + b) = str_nat a @ [48 + b]"
  by (subst str_nat.simps) simp

lemma nat_snoc:
  assumes "0 \<le> v" "48 \<le> c" "c \<le> 57"
  shows "nat (10 * v + (int c - 48)) = 10 * nat v + (c - 48)"
  using assms by (simp add: nat_add_distrib nat_mult_distrib nat_diff_distrib')

lemma zfill_snoc: "zfill (Suc w) (s @ [c]) = zfill w s @ [c]"
  by (simp add: zfill_def)

lemma zfill_str_nat:
  "list_all ascii_digit ds \<Longrightarrow> ds \<noteq> [] \<Longrightarrow> zfill (length ds) (str_nat (nat (ascii_num ds))) = ds"
proof (induction ds rule: rev_induct)
  case Nil
  then show ?case by simp
next
  case (snoc c ds)
  from snoc.prems(1) have d0: "list_all ascii_digit ds" "ascii_digit c" by simp_all
  then have d: "list_all ascii_digit ds" "48 \<le> c" "c \<le> 57"
    by (simp_all add: ascii_digit_def)
  from ascii_num_nonneg [OF d(1)] have v: "0 \<le> ascii_num ds" .
  have n: "nat (ascii_num (ds @ [c])) = 10 * nat (ascii_num ds) + (c - 48)"
    unfolding ascii_num_snoc by (rule nat_snoc [OF v d(2,3)])
  have k: "c - 48 < 10" "48 + (c - 48) = c" using d(2,3) by simp_all
  show ?case
  proof (cases "ascii_num ds = 0")
    case True
    from ascii_num_zero [OF d(1) True] have z: "ds = replicate (length ds) 48" .
    have "str_nat (nat (ascii_num (ds @ [c]))) = [c]"
      unfolding n using True k by (simp add: str_nat_small)
    then have "zfill (length (ds @ [c])) (str_nat (nat (ascii_num (ds @ [c])))) =
               replicate (length ds) 48 @ [c]"
      by (simp add: zfill_def)
    with z show ?thesis by simp
  next
    case False
    with v have p: "0 < nat (ascii_num ds)" by simp
    from False have ne: "ds \<noteq> []" by (auto simp: ascii_num_def)
    have "str_nat (nat (ascii_num (ds @ [c]))) = str_nat (nat (ascii_num ds)) @ [c]"
      unfolding n using str_nat_snoc [OF p k(1)] k(2) by simp
    then have "zfill (length (ds @ [c])) (str_nat (nat (ascii_num (ds @ [c])))) =
               zfill (length ds) (str_nat (nat (ascii_num ds))) @ [c]"
      by (simp add: zfill_snoc)
    with snoc.IH [OF d(1) ne] show ?thesis by simp
  qed
qed

lemma str_nat_digits:
  "list_all ascii_digit ds \<Longrightarrow> ds \<noteq> [] \<Longrightarrow> hd ds \<noteq> 48 \<Longrightarrow> str_nat (nat (ascii_num ds)) = ds"
proof (induction ds rule: rev_induct)
  case Nil
  then show ?case by simp
next
  case (snoc c ds)
  from snoc.prems(1) have d0: "list_all ascii_digit ds" "ascii_digit c" by simp_all
  then have d: "list_all ascii_digit ds" "48 \<le> c" "c \<le> 57"
    by (simp_all add: ascii_digit_def)
  from ascii_num_nonneg [OF d(1)] have v: "0 \<le> ascii_num ds" .
  have n: "nat (ascii_num (ds @ [c])) = 10 * nat (ascii_num ds) + (c - 48)"
    unfolding ascii_num_snoc by (rule nat_snoc [OF v d(2,3)])
  have k: "c - 48 < 10" "48 + (c - 48) = c" using d(2,3) by simp_all
  show ?case
  proof (cases "ds = []")
    case True
    then show ?thesis unfolding n using k by (simp add: ascii_num_def str_nat_small)
  next
    case False
    with snoc.prems(3) have h: "hd ds \<noteq> 48" by simp
    have "ascii_num ds \<noteq> 0"
    proof
      assume "ascii_num ds = 0"
      from ascii_num_zero [OF d(1) this] False have "hd ds = 48"
        by (cases ds) (auto simp: Cons_replicate_eq)
      with h show False by simp
    qed
    with v have p: "0 < nat (ascii_num ds)" by simp
    have "str_nat (nat (ascii_num (ds @ [c]))) = str_nat (nat (ascii_num ds)) @ [c]"
      unfolding n using str_nat_snoc [OF p k(1)] k(2) by simp
    with snoc.IH [OF d(1) False h] show ?thesis by simp
  qed
qed


lemma length_10_shape:
  "length s = 10 \<Longrightarrow> \<exists>a b c d e f g h i j. s = [a, b, c, d, e, f, g, h, i, j]"
  by (auto simp: length_Suc_conv eval_nat_numeral)

lemma date_new_valid:
  "valid_ymd y m d \<Longrightarrow> date_new y m d = Inr \<lparr>year = y, month = m, day = d\<rparr>"
  by (simp add: date_new_def valid_ymd_def)

lemma ddmmyyyy_fields:
  assumes "is_ddmmyyyy s"
  shows "s = take 2 s @ [46] @ take 2 (drop 3 s) @ [46] @ drop 6 s \<and>
         day_field (take 2 s) \<and> month_field (take 2 (drop 3 s)) \<and> year_field (drop 6 s) \<and>
         length (take 2 s) = 2 \<and> length (take 2 (drop 3 s)) = 2 \<and> length (drop 6 s) = 4 \<and>
         list_all ascii_digit (take 2 s) \<and> list_all ascii_digit (take 2 (drop 3 s)) \<and>
         list_all ascii_digit (drop 6 s)"
proof -
  from assms have "length s = 10" by (simp add: is_ddmmyyyy_def)
  from length_10_shape [OF this] obtain d1 d2 p1 m1 m2 p2 y1 y2 y3 y4
    where s: "s = [d1, d2, p1, m1, m2, p2, y1, y2, y3, y4]" by blast
  from assms have p: "p1 = 46" "p2 = 46"
    and dg: "ascii_digit d1" "ascii_digit d2" "ascii_digit m1" "ascii_digit m2"
      "ascii_digit y1" "ascii_digit y2" "ascii_digit y3" "ascii_digit y4"
    and v: "valid_ymd (ascii_num [y1, y2, y3, y4]) (ascii_num [m1, m2]) (ascii_num [d1, d2])"
    unfolding s is_ddmmyyyy_def by simp_all
  define D where "D = ascii_num [d1, d2]"
  define M where "M = ascii_num [m1, m2]"
  have D: "D = 10 * (int d1 - 48) + (int d2 - 48)" by (simp add: D_def ascii_num_def)
  have M: "M = 10 * (int m1 - 48) + (int m2 - 48)" by (simp add: M_def ascii_num_def)
  from v have m: "1 \<le> M" "M \<le> 12" and d: "1 \<le> D"
    "D \<le> days_in_month (ascii_num [y1, y2, y3, y4]) M"
    by (simp_all add: valid_ymd_def D_def M_def)
  from dim_bounds [OF m, of "ascii_num [y1, y2, y3, y4]"] d(2) have d31: "D \<le> 31" by simp
  have df: "day_field [d1, d2]"
  proof -
    from dg(1,2) d(1) d31 D
    have "(d1 = 51 \<and> 48 \<le> d2 \<and> d2 \<le> 49) \<or> (49 \<le> d1 \<and> d1 \<le> 50) \<or>
          (d1 = 48 \<and> 49 \<le> d2 \<and> d2 \<le> 57)"
      unfolding ascii_digit_def by arith
    with ascii_digit_re_digit [OF dg(2)] show ?thesis
      by (auto simp: day_field_def btw_def)
  qed
  have mf: "month_field [m1, m2]"
  proof -
    from dg(3,4) m M
    have "(m1 = 49 \<and> 48 \<le> m2 \<and> m2 \<le> 50) \<or> (m1 = 48 \<and> 49 \<le> m2 \<and> m2 \<le> 57)"
      unfolding ascii_digit_def by arith
    then show ?thesis by (auto simp: month_field_def btw_def)
  qed
  have yf: "year_field [y1, y2, y3, y4]"
    using dg(5-8) by (simp add: year_field_def ascii_digit_re_digit)
  show ?thesis unfolding s using p dg df mf yf by simp
qed

lemma ddmmyyyy_parse:
  assumes "is_ddmmyyyy s"
  shows "strptime s =
           Inr \<lparr>date_part = \<lparr>year = ascii_num (drop 6 s), month = ascii_num (take 2 (drop 3 s)),
                              day = ascii_num (take 2 s)\<rparr>,
                hour = 0, minute = 0, second = 0, microsecond = 0\<rparr>"
proof -
  let ?d = "take 2 s" and ?m = "take 2 (drop 3 s)" and ?y = "drop 6 s"
  from ddmmyyyy_fields [OF assms]
  have f: "s = ?d @ [46] @ ?m @ [46] @ ?y" "day_field ?d" "month_field ?m" "year_field ?y"
    "list_all ascii_digit ?d" "list_all ascii_digit ?m" "list_all ascii_digit ?y"
    by simp_all
  from assms have "valid_ymd (ascii_num ?y) (ascii_num ?m) (ascii_num ?d)"
    by (simp add: is_ddmmyyyy_def)
  from date_new_valid [OF this]
  have "date_new (int_of_str ?y) (int_of_str ?m) (int_of_str ?d) =
        Inr \<lparr>year = ascii_num ?y, month = ascii_num ?m, day = ascii_num ?d\<rparr>"
    by (simp add: int_of_str_ascii f(5-7))
  with f(1-4) show ?thesis
    unfolding strptime_Inr_iff by blast
qed

subsection \<open>Which strings parse\<close>

lemma Birthday_init_eq: "Birthday_init s = map_sum (\<lambda>e. ValueError) Birthday (strptime s)"
  by (cases "strptime s") (auto simp: Birthday_init_def dest: strptime_Inl)

text \<open>
  Claim C5 as stated fails: \<open>strptime\<close> also accepts days and months written without a
  leading zero, so \<open>1.6.2024\<close>, which is not of the form \<open>DD.MM.YYYY\<close>, is parsed as the
  first of June 2024.
\<close>

theorem birthday_parse_lenient_counterexample:
  "Birthday_init (ascii ''1.6.2024'') =
     Inr (Birthday \<lparr>date_part = \<lparr>year = 2024, month = 6, day = 1\<rparr>,
                    hour = 0, minute = 0, second = 0, microsecond = 0\<rparr>) \<and>
   \<not> is_ddmmyyyy (ascii ''1.6.2024'')"
  by (simp add: Birthday_init_def strptime_eval date_eval is_ddmmyyyy_def)

text \<open>
  Claim C5, amended: for every string \<open>s\<close>, parsing succeeds exactly when \<open>s\<close> is a day
  field, a dot, a month field, a dot and a year field, where
  \<^item> the day field is \<open>3\<close> followed by \<open>0\<close> or \<open>1\<close>, or \<open>1\<close> or \<open>2\<close> followed by any
    character of the class \<open>\d\<close> (any Unicode decimal digit), or \<open>0\<close> followed by \<open>1\<close>..\<open>9\<close>,
    or a single \<open>1\<close>..\<open>9\<close>, or a space followed by \<open>1\<close>..\<open>9\<close>;
  \<^item> the month field is \<open>1\<close> followed by \<open>0\<close>, \<open>1\<close> or \<open>2\<close>, or \<open>0\<close> followed by
    \<open>1\<close>..\<open>9\<close>, or a single \<open>1\<close>..\<open>9\<close>;
  \<^item> the year field is exactly four characters of the class \<open>\d\<close>;
  and the numbers that \<open>int()\<close> reads from the three fields denote a real calendar date
  (month lengths and leap years respected, year 1 to 9999); the result is that date at
  midnight. Every other string fails with \<open>ValueError\<close>. Every zero-padded \<open>DD.MM.YYYY\<close>
  string of a real date is accepted. The instances proved after it include a day
  written with an Arabic-Indic second digit, which is accepted, and a day written with
  an Arabic-Indic first digit, which is not.
\<close>

theorem birthday_parse_iff:
  "(Birthday_init s = Inr b \<longleftrightarrow>
      (\<exists>d m y. s = d @ [46] @ m @ [46] @ y \<and> day_field d \<and> month_field m \<and> year_field y \<and>
         valid_ymd (int_of_str y) (int_of_str m) (int_of_str d) \<and>
         b = Birthday \<lparr>date_part = \<lparr>year = int_of_str y, month = int_of_str m,
                                     day = int_of_str d\<rparr>,
                       hour = 0, minute = 0, second = 0, microsecond = 0\<rparr>)) \<and>
   (Birthday_init s = Inl e \<longrightarrow> e = ValueError) \<and>
   (is_ddmmyyyy s \<longrightarrow> (\<exists>b. Birthday_init s = Inr b))"
proof -
  have dn: "date_new y m d = Inr dt \<longleftrightarrow> valid_ymd y m d \<and> dt = \<lparr>year = y, month = m, day = d\<rparr>"
    for y m d dt
    by (auto simp: date_new_def valid_ymd_def)
  have a: "Birthday_init s = Inr b \<longleftrightarrow>
      (\<exists>d m y. s = d @ [46] @ m @ [46] @ y \<and> day_field d \<and> month_field m \<and> year_field y \<and>
         valid_ymd (int_of_str y) (int_of_str m) (int_of_str d) \<and>
         b = Birthday \<lparr>date_part = \<lparr>year = int_of_str y, month = int_of_str m,
                                     day = int_of_str d\<rparr>,
                       hour = 0, minute = 0, second = 0, microsecond = 0\<rparr>)"
  proof
    assume "Birthday_init s = Inr b"
    then obtain v where v: "strptime s = Inr v" "b = Birthday v"
      by (cases "strptime s") (auto simp: Birthday_init_eq)
    from v(1) [unfolded strptime_Inr_iff dn] v(2)
    show "\<exists>d m y. s = d @ [46] @ m @ [46] @ y \<and> day_field d \<and> month_field m \<and>
         year_field y \<and> valid_ymd (int_of_str y) (int_of_str m) (int_of_str d) \<and>
         b = Birthday \<lparr>date_part = \<lparr>year = int_of_str y, month = int_of_str m,
                                     day = int_of_str d\<rparr>,
                       hour = 0, minute = 0, second = 0, microsecond = 0\<rparr>"
      by blast
  next
    assume "\<exists>d m y. s = d @ [46] @ m @ [46] @ y \<and> day_field d \<and> month_field m \<and>
         year_field y \<and> valid_ymd (int_of_str y) (int_of_str m) (int_of_str d) \<and>
         b = Birthday \<lparr>date_part = \<lparr>year = int_of_str y, month = int_of_str m,
                                     day = int_of_str d\<rparr>,
                       hour = 0, minute = 0, second = 0, microsecond = 0\<rparr>"
    then obtain d m y where f: "s = d @ [46] @ m @ [46] @ y" "day_field d" "month_field m"
      "year_field y" "valid_ymd (int_of_str y) (int_of_str m) (int_of_str d)"
      "b = Birthday \<lparr>date_part = \<lparr>year = int_of_str y, month = int_of_str m,
                                     day = int_of_str d\<rparr>,
                       hour = 0, minute = 0, second = 0, microsecond = 0\<rparr>"
      by blast
    have "strptime s = Inr \<lparr>date_part = \<lparr>year = int_of_str y, month = int_of_str m,
                                     day = int_of_str d\<rparr>,
                       hour = 0, minute = 0, second = 0, microsecond = 0\<rparr>"
      unfolding strptime_Inr_iff dn using f(1-5) by blast
    with f(6) show "Birthday_init s = Inr b" by (simp add: Birthday_init_eq)
  qed
  have b: "Birthday_init s = Inl e \<longrightarrow> e = ValueError"
    by (cases "strptime s") (auto simp: Birthday_init_eq)
  have c: "is_ddmmyyyy s \<longrightarrow> (\<exists>b. Birthday_init s = Inr b)"
    using ddmmyyyy_parse [of s] by (auto simp: Birthday_init_eq)
  from a b c show ?thesis by blast
qed

lemmas ddmmyyyy_eval = is_ddmmyyyy_def ascii_num_def ascii_digit_def

theorem birthday_parse_iff_witness:
  "is_ddmmyyyy (ascii ''29.02.2024'') \<and>
   (\<exists>b. Birthday_init (ascii ''29.02.2024'') = Inr b) \<and>
   Birthday_init (ascii ''29.02.2023'') = Inl ValueError \<and>
   Birthday_init (ascii ''2024-02-29'') = Inl ValueError \<and>
   Birthday_init ([49, 1637] @ ascii ''.06.2024'') =
     Inr (Birthday \<lparr>date_part = \<lparr>year = 2024, month = 6, day = 15\<rparr>,
                    hour = 0, minute = 0, second = 0, microsecond = 0\<rparr>) \<and>
   Birthday_init ([1632, 1633] @ ascii ''.06.2024'') = Inl ValueError"
proof -
  have 1: "is_ddmmyyyy (ascii ''29.02.2024'')"
    by (simp add: ddmmyyyy_eval date_eval ascii_def)
  have 2: "\<exists>e. Birthday_init (ascii ''29.02.2023'') = Inl e"
    by (simp add: Birthday_init_def strptime_eval date_eval)
  have 3: "\<exists>e. Birthday_init (ascii ''2024-02-29'') = Inl e"
    by (simp add: Birthday_init_def strptime_eval date_eval)
  have 4: "\<exists>e. Birthday_init ([1632, 1633] @ ascii ''.06.2024'') = Inl e"
    by (simp add: Birthday_init_def strptime_eval date_eval)
  let ?d = "[49, 1637] :: pystr" and ?m = "[48, 54] :: pystr" and ?y = "[50, 48, 50, 52] :: pystr"
  have s: "[49, 1637] @ ascii ''.06.2024'' = ?d @ [46] @ ?m @ [46] @ ?y"
    by (simp add: ascii_def)
  have f: "day_field ?d" "month_field ?m" "year_field ?y"
    by (simp_all add: day_field_def month_field_def year_field_def btw_def re_digit_def
        Nd_ranges_def in_range_def)
  have n: "int_of_str ?d = 15" "int_of_str ?m = 6" "int_of_str ?y = 2024"
    by (simp_all add: int_of_str_def digit_value_def Nd_ranges_def in_range_def)
  have v: "valid_ymd (int_of_str ?y) (int_of_str ?m) (int_of_str ?d)"
    unfolding n by (simp add: date_eval)
  have 5: "Birthday_init ([49, 1637] @ ascii ''.06.2024'') =
     Inr (Birthday \<lparr>date_part = \<lparr>year = 2024, month = 6, day = 15\<rparr>,
                    hour = 0, minute = 0, second = 0, microsecond = 0\<rparr>)"
    using birthday_parse_iff [of "[49, 1637] @ ascii ''.06.2024''"
        "Birthday \<lparr>date_part = \<lparr>year = 2024, month = 6, day = 15\<rparr>,
                    hour = 0, minute = 0, second = 0, microsecond = 0\<rparr>"] s f v n
    by metis
  from 1 2 3 4 birthday_parse_iff [of "ascii ''29.02.2024''"]
    birthday_parse_iff [of "ascii ''29.02.2023''"] birthday_parse_iff [of "ascii ''2024-02-29''"]
    birthday_parse_iff [of "[1632, 1633] @ ascii ''.06.2024''"]
  have "is_ddmmyyyy (ascii ''29.02.2024'') \<and>
   (\<exists>b. Birthday_init (ascii ''29.02.2024'') = Inr b) \<and>
   Birthday_init (ascii ''29.02.2023'') = Inl ValueError \<and>
   Birthday_init (ascii ''2024-02-29'') = Inl ValueError \<and>
   Birthday_init ([1632, 1633] @ ascii ''.06.2024'') = Inl ValueError"
    by metis
  with 5 show ?thesis by simp
qed

subsection \<open>Parsing, then printing\<close>

lemma fmt_02d_digits:
  assumes "list_all ascii_digit ds" "length ds = 2"
  shows "fmt_02d (ascii_num ds) = ds"
proof -
  from assms(2) have "ds \<noteq> []" by auto
  from zfill_str_nat [OF assms(1) this] assms(2) show ?thesis by (simp add: fmt_02d_def)
qed

lemma fmt_Y_digits:
  assumes "list_all ascii_digit ds" "length ds = 4" "zp \<or> 1000 \<le> ascii_num ds"
  shows "fmt_Y zp (ascii_num ds) = ds"
proof (cases zp)
  case True
  from assms(2) have "ds \<noteq> []" by auto
  from zfill_str_nat [OF assms(1) this] assms(2) True show ?thesis by (simp add: fmt_Y_def)
next
  case False
  with assms(3) have big: "1000 \<le> ascii_num ds" by simp
  from assms(2) obtain a b c d where ds: "ds = [a, b, c, d]"
    by (auto simp: length_Suc_conv eval_nat_numeral)
  have v: "ascii_num ds = 1000 * (int a - 48) + 100 * (int b - 48) + 10 * (int c - 48) + (int d - 48)"
    by (simp add: ds ascii_num_def)
  from assms(1) have "int b \<le> 57" "int c \<le> 57" "int d \<le> 57"
    by (simp_all add: ds ascii_digit_def)
  have "a \<noteq> 48"
  proof
    assume "a = 48"
    then have "int a = 48" by simp
    define B C D where "B = int b" and "C = int c" and "D = int d"
    have "ascii_num ds = 100 * B + 10 * C + D - 5328"
      unfolding v B_def C_def D_def using \<open>int a = 48\<close> by simp
    moreover have "B \<le> 57" "C \<le> 57" "D \<le> 57"
      using \<open>int b \<le> 57\<close> \<open>int c \<le> 57\<close> \<open>int d \<le> 57\<close> by (simp_all add: B_def C_def D_def)
    ultimately show False using big by linarith
  qed
  then have "hd ds \<noteq> 48" "ds \<noteq> []" by (simp_all add: ds)
  from str_nat_digits [OF assms(1) this(2,1)] False show ?thesis by (simp add: fmt_Y_def)
qed

text \<open>
  Claim C6 as stated fails where the platform's \<open>strftime\<close> does not pad \<open>%Y\<close> (glibc
  with CPython up to 3.12): \<open>01.06.0999\<close> is a valid zero-padded string, it is parsed
  to the year 999 and printed back as \<open>01.06.999\<close>.
\<close>

theorem birthday_roundtrip_counterexample:
  "is_ddmmyyyy (ascii ''01.06.0999'') \<and>
   Birthday_init (ascii ''01.06.0999'') =
     Inr (Birthday \<lparr>date_part = \<lparr>year = 999, month = 6, day = 1\<rparr>,
                    hour = 0, minute = 0, second = 0, microsecond = 0\<rparr>) \<and>
   Birthday_str False (Birthday \<lparr>date_part = \<lparr>year = 999, month = 6, day = 1\<rparr>,
                                 hour = 0, minute = 0, second = 0, microsecond = 0\<rparr>)
     = ascii ''01.06.999'' \<and>
   ascii ''01.06.999'' \<noteq> ascii ''01.06.0999''"
  by (simp add: Birthday_init_def Birthday_str_def strptime_eval date_eval strftime_eval
      ddmmyyyy_eval)

text \<open>
  Claim C6, amended: for every string \<open>s\<close> that is a valid zero-padded \<open>DD.MM.YYYY\<close>
  rendering of a real calendar date, parsing \<open>s\<close> succeeds, and formatting the result
  gives \<open>s\<close> back exactly whenever the year is at least 1000 or the platform pads
  \<open>%Y\<close> to four digits.
\<close>

theorem birthday_roundtrip:
  assumes "is_ddmmyyyy s" and "zp \<or> 1000 \<le> ascii_num (drop 6 s)"
  shows "\<exists>b. Birthday_init s = Inr b \<and> Birthday_str zp b = s"
proof -
  let ?d = "take 2 s" and ?m = "take 2 (drop 3 s)" and ?y = "drop 6 s"
  let ?b = "Birthday \<lparr>date_part = \<lparr>year = ascii_num ?y, month = ascii_num ?m,
                                    day = ascii_num ?d\<rparr>,
                      hour = 0, minute = 0, second = 0, microsecond = 0\<rparr>"
  from ddmmyyyy_fields [OF assms(1)]
  have f: "s = ?d @ [46] @ ?m @ [46] @ ?y"
    "length ?d = 2" "length ?m = 2" "length ?y = 4"
    "list_all ascii_digit ?d" "list_all ascii_digit ?m" "list_all ascii_digit ?y"
    by simp_all
  have p: "Birthday_init s = Inr ?b"
    using ddmmyyyy_parse [OF assms(1)] by (simp add: Birthday_init_eq)
  have "Birthday_str zp ?b = ?d @ [46] @ ?m @ [46] @ ?y"
    unfolding Birthday_str_def strftime_dmY_def
    using fmt_02d_digits [OF f(5,2)] fmt_02d_digits [OF f(6,3)] fmt_Y_digits [OF f(7,4) assms(2)]
    by simp
  with f(1) have "Birthday_str zp ?b = s" by simp
  with p show ?thesis by blast
qed

theorem birthday_roundtrip_witness:
  "(\<exists>b. Birthday_init (ascii ''29.02.2024'') = Inr b \<and>
        Birthday_str False b = ascii ''29.02.2024'') \<and>
   (\<exists>b. Birthday_init (ascii ''01.06.0999'') = Inr b \<and>
        Birthday_str True b = ascii ''01.06.0999'')"
proof -
  have 1: "is_ddmmyyyy (ascii ''29.02.2024'')"
    by (simp add: ddmmyyyy_eval date_eval ascii_def)
  have 2: "False \<or> 1000 \<le> ascii_num (drop 6 (ascii ''29.02.2024''))"
    by (simp add: ascii_num_def ascii_def)
  have 3: "is_ddmmyyyy (ascii ''01.06.0999'')"
    by (simp add: ddmmyyyy_eval date_eval ascii_def)
  have 4: "True \<or> 1000 \<le> ascii_num (drop 6 (ascii ''01.06.0999''))" by simp
  from birthday_roundtrip [OF 1 2] birthday_roundtrip [OF 3 4] show ?thesis by blast
qed

section \<open>Days to the next birthday\<close>

text \<open>
  Claim C3 (the code breaks it): \<open>days_to_birthday\<close> compares the stored \<open>datetime\<close>
  with the \<open>date\<close> of today, which raises \<open>TypeError\<close>; \<open>get_upcoming_birthdays\<close>
  converts with \<open>.date()\<close> first, this method does not. On the birthday itself, where
  the claim promises 0, the call raises; and it returns a number for no record that has
  a birthday.
\<close>

theorem days_to_birthday_type_error:
  "days_to_birthday \<lparr>year = 2024, month = 6, day = 5\<rparr>
     (snd (add_birthday (ascii ''05.06.1990'') (Record_init (ascii ''Anna''))))
   = Inl TypeError"
  by (simp add: days_to_birthday_def add_birthday_def Birthday_init_def Record_init_def
      datetime_replace_year_def datetime_lt_date_def strptime_eval date_eval)

lemma days_to_birthday_never_returns:
  assumes "birthday r = Some b"
  shows "\<exists>e. days_to_birthday today r = Inl e"
  using assms
  by (simp add: days_to_birthday_def datetime_lt_date_def split: sum.splits)

text \<open>
  Claim C9 (the code breaks it): for a birthday on February 29 and a \<open>today\<close> in a year
  that is not a leap year, \<open>replace(year=today.year)\<close> raises \<open>ValueError\<close>, so
  \<open>days_to_birthday\<close> faults instead of returning a result.
\<close>

theorem days_to_birthday_feb29_value_error:
  "days_to_birthday \<lparr>year = 2023, month = 6, day = 5\<rparr>
     (snd (add_birthday (ascii ''29.02.2000'') (Record_init (ascii ''Anna''))))
   = Inl ValueError"
  by (simp add: days_to_birthday_def add_birthday_def Birthday_init_def Record_init_def
      datetime_replace_year_def datetime_lt_date_def strptime_eval date_eval)

lemma days_to_birthday_feb29:
  assumes "birthday r = Some b" "month (date_part (birthday_value b)) = 2"
    "day (date_part (birthday_value b)) = 29" "\<not> is_leap (year today)"
  shows "days_to_birthday today r = Inl ValueError"
  using assms
  by (simp add: days_to_birthday_def datetime_replace_year_def date_new_def days_in_month_def
      DAYS_IN_MONTH_def)

end
